theory Spec2Isabelle
  imports Complex_Main "HOL-Library.Word" "HOL-Library.Log_Nat"
begin

section \<open>Numeric types of the source\<close>

text \<open>
  \<^verbatim>\<open>std::size_t\<close> is a 64-bit unsigned integer: addition and subtraction wrap
  modulo \<open>2 ^ 64\<close>. Values of \<^verbatim>\<open>int64_t\<close> (timestamps, millisecond counts) and
  clock readings are integers; signed overflow is undefined behaviour in C++ and the
  model covers the executions without it, so they are \<open>int\<close> and the bounds of
  \<^verbatim>\<open>int64_t\<close> are written out where the code uses them. A \<^verbatim>\<open>time_point\<close> is the
  number of ticks of the clock since its epoch; the steady clock of the platforms the
  header supports (it includes \<^verbatim>\<open>unistd.h\<close>) ticks in nanoseconds.

  A \<^verbatim>\<open>double\<close> is an IEEE 754 binary64 number, held as the real number it denotes.
  Every operation of the source on doubles (a conversion from an integer, a product,
  a quotient) is the exact result rounded to 53 significant bits, to nearest with ties
  to even; \<open>round_double\<close> is that rounding. The exponent range is not modelled: the
  nonzero doubles that \<^verbatim>\<open>percentage\<close>, \<^verbatim>\<open>get_rate\<close> and \<^verbatim>\<open>eta\<close> compute from
  64-bit counters and timestamps lie between \<open>2\<^sup>-\<^sup>8\<^sup>4\<close> and \<open>2\<^sup>1\<^sup>1\<^sup>8\<close>, far inside the
  normal range of binary64, where no result overflows or is subnormal.
  Where a result stops being a number the model stops: a division by zero and a
  conversion to \<^verbatim>\<open>int64_t\<close> of a value that does not fit are results of their own
  (\<open>Inl\<close> of a \<open>fault\<close>).
\<close>

type_synonym size_t = "64 word"
type_synonym int64_t = int
type_synonym time_point = int

definition INT64_MAX :: int where
  "INT64_MAX = 2 ^ 63 - 1"

definition INT64_MIN :: int where
  "INT64_MIN = - (2 ^ 63)"

text \<open>Integer division of C++ truncates towards zero; \<^verbatim>\<open>duration_cast\<close> uses it.\<close>

definition tdiv :: "int \<Rightarrow> int \<Rightarrow> int" where
  "tdiv a b = (if (a < 0) = (b < 0) then \<bar>a\<bar> div \<bar>b\<bar> else - (\<bar>a\<bar> div \<bar>b\<bar>))"

definition to_microseconds :: "int \<Rightarrow> int64_t" where
  "to_microseconds d = tdiv d 1000"

definition to_milliseconds :: "int \<Rightarrow> int64_t" where
  "to_milliseconds d = tdiv d 1000000"

text \<open>
  The binade of a positive real \<open>x\<close> is the exponent \<open>e\<close> with \<open>2\<^sup>e \<le> x < 2\<^sup>e\<^sup>+\<^sup>1\<close>,
  computed from the bit length of an integer part.
\<close>

definition binade :: "real \<Rightarrow> int" where
  "binade x = (if 1 \<le> x then bitlen \<lfloor>x\<rfloor> - 1 else - bitlen (\<lceil>1 / x\<rceil> - 1))"

definition round_half_even :: "real \<Rightarrow> int" where
  "round_half_even y =
     (let f = \<lfloor>y\<rfloor>; d = y - of_int f
      in if d < 1 / 2 then f else if 1 / 2 < d then f + 1 else if even f then f else f + 1)"

definition round_double :: "real \<Rightarrow> real" where
  "round_double x =
     (if x = 0 then 0
      else if 0 < x then
        (let u = 2 powi (binade x - 52) in of_int (round_half_even (x / u)) * u)
      else
        (let u = 2 powi (binade (- x) - 52) in - (of_int (round_half_even (- x / u)) * u)))"

datatype fault = Division_by_zero | Conversion_out_of_range

text \<open>The product and the quotient of two doubles.\<close>

definition dmul :: "real \<Rightarrow> real \<Rightarrow> real" where
  "dmul x y = round_double (x * y)"

definition ddiv :: "real \<Rightarrow> real \<Rightarrow> fault + real" where
  "ddiv x y = (if y = 0 then Inl Division_by_zero else Inr (round_double (x / y)))"

text \<open>\<^verbatim>\<open>static_cast<double>(n)\<close> of a \<^verbatim>\<open>std::size_t\<close> and of an \<^verbatim>\<open>int64_t\<close>.\<close>

definition to_double :: "size_t \<Rightarrow> real" where
  "to_double n = round_double (real_of_int (uint n))"

definition int64_to_double :: "int64_t \<Rightarrow> real" where
  "int64_to_double k = round_double (real_of_int k)"

definition trunc :: "real \<Rightarrow> int" where
  "trunc x = (if 0 \<le> x then \<lfloor>x\<rfloor> else \<lceil>x\<rceil>)"

text \<open>\<^verbatim>\<open>static_cast<int64_t>(x)\<close> of a double: defined only when the truncated value fits.\<close>

definition double_to_int64 :: "real \<Rightarrow> fault + int64_t" where
  "double_to_int64 x =
     (let k = trunc x in
      if INT64_MIN \<le> k \<and> k \<le> INT64_MAX then Inr k else Inl Conversion_out_of_range)"

section \<open>The progress tracker\<close>

text \<open>
  \<^verbatim>\<open>class progress_tracker\<close>. Members keep their names, with \<open>_m\<close> for the
  trailing underscore. \<open>history_m\<close> is the \<^verbatim>\<open>std::array\<close> of \<open>HISTORY_SIZE\<close>
  entries.
\<close>

definition HISTORY_SIZE :: nat where
  "HISTORY_SIZE = 64"

record history_entry =
  progress :: size_t
  timestamp :: int64_t

record stats_cache =
  rate :: real
  elapsed :: int
  last_update :: time_point

record progress_tracker =
  current_m :: size_t
  total_m :: size_t
  start_time_m :: time_point
  history_m :: "history_entry list"
  history_index_m :: size_t
  cache_m :: stats_cache

text \<open>
  The constructor: every history entry is zero by its member initialisers, the cache is
  default-initialised (a default \<^verbatim>\<open>time_point\<close> is the clock's epoch), and the start
  time is the clock reading \<open>now\<close>.
\<close>

definition progress_tracker_init :: "size_t \<Rightarrow> time_point \<Rightarrow> progress_tracker" where
  "progress_tracker_init total_v now =
     \<lparr>current_m = 0, total_m = total_v, start_time_m = now,
      history_m = (replicate HISTORY_SIZE \<lparr>progress = 0, timestamp = 0\<rparr>)
                    [0 := \<lparr>progress = 0, timestamp = 0\<rparr>],
      history_index_m = 0,
      cache_m = \<lparr>rate = 0, elapsed = 0, last_update = 0\<rparr>\<rparr>"

definition tracker_wf :: "progress_tracker \<Rightarrow> bool" where
  "tracker_wf tr = (length (history_m tr) = HISTORY_SIZE)"

subsection \<open>advance\<close>

text \<open>
  The atomic operations \<^verbatim>\<open>advance\<close> is made of, one definition per statement, so that
  the same operations serve the sequential method and the interleaving of threads.
\<close>

definition fetch_add_current :: "size_t \<Rightarrow> progress_tracker \<Rightarrow> size_t \<times> progress_tracker" where
  "fetch_add_current n tr = (current_m tr, tr\<lparr>current_m := current_m tr + n\<rparr>)"

definition fetch_add_history_index :: "progress_tracker \<Rightarrow> size_t \<times> progress_tracker" where
  "fetch_add_history_index tr = (history_index_m tr, tr\<lparr>history_index_m := history_index_m tr + 1\<rparr>)"

definition store_progress :: "nat \<Rightarrow> size_t \<Rightarrow> progress_tracker \<Rightarrow> progress_tracker" where
  "store_progress idx p tr =
     tr\<lparr>history_m := (history_m tr)[idx := (history_m tr ! idx)\<lparr>progress := p\<rparr>]\<rparr>"

definition store_timestamp :: "nat \<Rightarrow> int64_t \<Rightarrow> progress_tracker \<Rightarrow> progress_tracker" where
  "store_timestamp idx t tr =
     tr\<lparr>history_m := (history_m tr)[idx := (history_m tr ! idx)\<lparr>timestamp := t\<rparr>]\<rparr>"

definition advance :: "size_t \<Rightarrow> time_point \<Rightarrow> progress_tracker \<Rightarrow> progress_tracker" where
  "advance n now tr =
     (let (old, tr1) = fetch_add_current n tr;
          new_progress = old + n;
          (old_idx, tr2) = fetch_add_history_index tr1;
          idx = unat old_idx mod HISTORY_SIZE;
          ts = to_microseconds (now - start_time_m tr2);
          tr3 = store_progress idx new_progress tr2
      in store_timestamp idx ts tr3)"

definition set_total :: "size_t \<Rightarrow> progress_tracker \<Rightarrow> progress_tracker" where
  "set_total total_v tr = tr\<lparr>total_m := total_v\<rparr>"

definition current :: "progress_tracker \<Rightarrow> size_t" where
  "current tr = current_m tr"

definition total_of :: "progress_tracker \<Rightarrow> size_t" where
  "total_of tr = total_m tr"

subsection \<open>percentage\<close>

definition percentage :: "progress_tracker \<Rightarrow> fault + real" where
  "percentage tr =
     (let t = total_m tr in
      if t = 0 then Inr 0
      else let c = current_m tr in
        case ddiv (dmul 100 (to_double c)) (to_double t) of
          Inl e \<Rightarrow> Inl e
        | Inr q \<Rightarrow> Inr (min q 100))"

subsection \<open>get\_rate and eta\<close>

text \<open>
  The scan of \<^verbatim>\<open>get_rate\<close> over the first \<open>entries_to_check\<close> slots, with its four
  local variables as a record and the body of the \<^verbatim>\<open>for\<close> loop as \<open>scan_step\<close>.
\<close>

record scan_state =
  oldest_idx :: nat
  oldest_time :: int64_t
  newest_idx :: nat
  newest_time :: int64_t

definition scan_init :: scan_state where
  "scan_init = \<lparr>oldest_idx = 0, oldest_time = INT64_MAX, newest_idx = 0, newest_time = 0\<rparr>"

definition scan_step :: "history_entry list \<Rightarrow> nat \<Rightarrow> scan_state \<Rightarrow> scan_state" where
  "scan_step h i s =
     (let time = timestamp (h ! i) in
      if time > 0 then
        let s1 = (if time < oldest_time s then s\<lparr>oldest_time := time, oldest_idx := i\<rparr> else s)
        in (if time > newest_time s1 then s1\<lparr>newest_time := time, newest_idx := i\<rparr> else s1)
      else s)"

definition scan_history :: "history_entry list \<Rightarrow> nat \<Rightarrow> scan_state" where
  "scan_history h entries_to_check = fold (scan_step h) [0..<entries_to_check] scan_init"

text \<open>The recomputation of the rate: the part of \<^verbatim>\<open>get_rate\<close> between the two locks.\<close>

definition recompute_rate :: "progress_tracker \<Rightarrow> fault + real" where
  "recompute_rate tr =
     (let current_idx = history_index_m tr;
          entries_to_check = min HISTORY_SIZE (unat current_idx);
          s = scan_history (history_m tr) entries_to_check
      in if newest_time s > oldest_time s \<and> newest_idx s \<noteq> oldest_idx s then
           let progress_diff = progress (history_m tr ! newest_idx s)
                                 - progress (history_m tr ! oldest_idx s);
               time_diff = newest_time s - oldest_time s
           in if time_diff > 0
              then ddiv (dmul 1000000 (to_double progress_diff)) (int64_to_double time_diff)
              else Inr 0
         else Inr 0)"

definition get_rate :: "time_point \<Rightarrow> progress_tracker \<Rightarrow> (fault + real) \<times> progress_tracker" where
  "get_rate now tr =
     (if to_milliseconds (now - last_update (cache_m tr)) < 100
      then (Inr (rate (cache_m tr)), tr)
      else case recompute_rate tr of
             Inl e \<Rightarrow> (Inl e, tr)
           | Inr r \<Rightarrow>
               (Inr r, tr\<lparr>cache_m := \<lparr>rate = r,
                                      elapsed = to_milliseconds (now - start_time_m tr),
                                      last_update = now\<rparr>\<rparr>))"

text \<open>\<^verbatim>\<open>eta\<close> returns a count of milliseconds.\<close>

definition eta :: "time_point \<Rightarrow> progress_tracker \<Rightarrow> (fault + int64_t) \<times> progress_tracker" where
  "eta now tr =
     (case get_rate now tr of
        (Inl e, tr') \<Rightarrow> (Inl e, tr')
      | (Inr r, tr') \<Rightarrow>
          if r \<le> 0 then (Inr 0, tr')
          else let remaining = total_m tr' - current_m tr' in
            (case ddiv (to_double remaining) r of
               Inl e \<Rightarrow> (Inl e, tr')
             | Inr eta_seconds \<Rightarrow> (double_to_int64 (dmul eta_seconds 1000), tr')))"

subsection \<open>The estimator as the specification words it\<close>

text \<open>
  The valid samples among the first \<open>k\<close> slots are those with a timestamp above zero.
  The oldest is the first one (in slot order) of minimum timestamp, the newest the first
  one of maximum timestamp. The estimate is the progress of the newest minus the
  progress of the oldest, a difference of two numbers, over the time between them, in
  units per second (timestamps are microseconds), and zero with fewer than two valid
  samples or no time between them.
\<close>

definition valid_samples :: "history_entry list \<Rightarrow> nat \<Rightarrow> history_entry list" where
  "valid_samples h k = filter (\<lambda>e. 0 < timestamp e) (take k h)"

definition oldest_sample :: "history_entry list \<Rightarrow> history_entry" where
  "oldest_sample vs = arg_min_list timestamp vs"

definition newest_sample :: "history_entry list \<Rightarrow> history_entry" where
  "newest_sample vs = arg_min_list (\<lambda>e. - timestamp e) vs"

definition estimate_spec :: "history_entry list \<Rightarrow> nat \<Rightarrow> real" where
  "estimate_spec h k =
     (let vs = valid_samples h k in
      if length vs < 2 then 0
      else let oldest = oldest_sample vs; newest = newest_sample vs in
        if timestamp newest - timestamp oldest = 0 then 0
        else (real_of_int (uint (progress newest)) - real_of_int (uint (progress oldest)))
               / real_of_int (timestamp newest - timestamp oldest) * 1000000)"

text \<open>
  The same estimate in the arithmetic of the code: the difference of the two progress
  values is taken in \<^verbatim>\<open>std::size_t\<close>, and the product and the quotient in doubles.
\<close>

definition double_rate :: "size_t \<Rightarrow> int64_t \<Rightarrow> real" where
  "double_rate progress_diff time_diff =
     round_double (dmul 1000000 (to_double progress_diff) / int64_to_double time_diff)"

definition estimate_code :: "history_entry list \<Rightarrow> nat \<Rightarrow> real" where
  "estimate_code h k =
     (let vs = valid_samples h k in
      if length vs < 2 then 0
      else let oldest = oldest_sample vs; newest = newest_sample vs in
        if timestamp newest - timestamp oldest = 0 then 0
        else double_rate (progress newest - progress oldest)
               (timestamp newest - timestamp oldest))"

text \<open>The loop invariant of the scan, after \<open>k\<close> slots.\<close>

definition scan_inv :: "history_entry list \<Rightarrow> nat \<Rightarrow> scan_state \<Rightarrow> bool" where
  "scan_inv h k s =
     (let vs = valid_samples h k in
      if vs = [] then s = scan_init
      else newest_time s = timestamp (newest_sample vs)
         \<and> newest_idx s < k \<and> h ! newest_idx s = newest_sample vs
         \<and> oldest_time s = timestamp (oldest_sample vs)
         \<and> (oldest_time s < INT64_MAX \<longrightarrow> oldest_idx s < k \<and> h ! oldest_idx s = oldest_sample vs))"

section \<open>The progress bar\<close>

text \<open>
  \<^verbatim>\<open>class progress_bar\<close>. A \<^verbatim>\<open>unique_ptr\<close> is an option (\<open>None\<close> is the null
  pointer, as after a move). The display policy is an interface with two virtual
  methods, \<^verbatim>\<open>render\<close> and \<^verbatim>\<open>finish\<close>, that receive the tracker by const
  reference; the model records each dispatch, with the policy object and the tracker it
  is given, in the order the render mutex serialises them. What a policy does with the
  tracker (the bar display reads the rate, which may refresh the tracker's cache) is not
  modelled. The result of \<^verbatim>\<open>is_tty()\<close> is the parameter \<open>tty\<close>; clock readings are
  parameters too.
\<close>

datatype display_policy = Bar_display | Custom_display nat

datatype dispatch =
    Render display_policy progress_tracker
  | Finish display_policy progress_tracker

fun is_Finish :: "dispatch \<Rightarrow> bool" where
  "is_Finish (Finish d tr) = True"
| "is_Finish (Render d tr) = False"

fun is_Render :: "dispatch \<Rightarrow> bool" where
  "is_Render (Render d tr) = True"
| "is_Render (Finish d tr) = False"

record progress_bar =
  tracker_m :: "progress_tracker option"
  display_m :: "display_policy option"
  finished_m :: bool
  last_render_time_m :: int64_t

type_synonym bar_state = "progress_bar \<times> dispatch list"

definition min_render_interval :: int where
  "min_render_interval = 33"

text \<open>The constructor renders once when the output is a terminal.\<close>

definition progress_bar_init ::
  "bool \<Rightarrow> size_t \<Rightarrow> display_policy option \<Rightarrow> time_point \<Rightarrow> dispatch list \<Rightarrow> bar_state" where
  "progress_bar_init tty total_v display now out =
     (let tr = progress_tracker_init total_v now;
          d = (case display of Some p \<Rightarrow> p | None \<Rightarrow> Bar_display);
          b = \<lparr>tracker_m = Some tr, display_m = Some d, finished_m = False,
               last_render_time_m = 0\<rparr>
      in if tty then (b, out @ [Render d tr]) else (b, out))"

text \<open>
  The two compare-and-swap operations. \<^verbatim>\<open>compare_exchange_weak\<close> may fail although the
  value is the expected one; \<open>spurious\<close> says whether it does.
\<close>

definition cas_finished :: "progress_bar \<Rightarrow> bool \<times> progress_bar" where
  "cas_finished b = (if finished_m b = False then (True, b\<lparr>finished_m := True\<rparr>) else (False, b))"

definition cas_last_render_time ::
  "int64_t \<Rightarrow> int64_t \<Rightarrow> bool \<Rightarrow> progress_bar \<Rightarrow> bool \<times> progress_bar" where
  "cas_last_render_time expected desired spurious b =
     (if last_render_time_m b = expected \<and> \<not> spurious
      then (True, b\<lparr>last_render_time_m := desired\<rparr>) else (False, b))"

text \<open>
  A dispatch under the render mutex: \<^verbatim>\<open>display_->render(*tracker_)\<close> and
  \<^verbatim>\<open>display_->finish(*tracker_)\<close>. Every caller checks the two pointers first; with a
  null pointer the model dispatches nothing.
\<close>

definition dispatch_render :: "bar_state \<Rightarrow> bar_state" where
  "dispatch_render s =
     (case s of (b, out) \<Rightarrow>
        (case tracker_m b of None \<Rightarrow> s
         | Some tr \<Rightarrow> (case display_m b of None \<Rightarrow> s
             | Some d \<Rightarrow> (b, out @ [Render d tr]))))"

definition dispatch_finish :: "bar_state \<Rightarrow> bar_state" where
  "dispatch_finish s =
     (case s of (b, out) \<Rightarrow>
        (case tracker_m b of None \<Rightarrow> s
         | Some tr \<Rightarrow> (case display_m b of None \<Rightarrow> s
             | Some d \<Rightarrow> (b, out @ [Finish d tr]))))"

definition try_render :: "bool \<Rightarrow> time_point \<Rightarrow> bool \<Rightarrow> bar_state \<Rightarrow> bar_state" where
  "try_render tty now spurious s =
     (case s of (b, out) \<Rightarrow>
        if \<not> tty \<or> tracker_m b = None \<or> display_m b = None then s
        else let now_ms = to_milliseconds now;
                 last_ms = last_render_time_m b
             in if now_ms - last_ms \<ge> min_render_interval then
                  (case cas_last_render_time last_ms now_ms spurious b of
                     (True, b') \<Rightarrow> dispatch_render (b', out)
                   | (False, b') \<Rightarrow> (b', out))
                else s)"

definition bar_advance ::
  "bool \<Rightarrow> size_t \<Rightarrow> time_point \<Rightarrow> time_point \<Rightarrow> bool \<Rightarrow> bar_state \<Rightarrow> bar_state" where
  "bar_advance tty n now_tracker now_render spurious s =
     (case s of (b, out) \<Rightarrow>
        let b1 = (case tracker_m b of None \<Rightarrow> b
                  | Some tr \<Rightarrow> b\<lparr>tracker_m := Some (advance n now_tracker tr)\<rparr>)
        in try_render tty now_render spurious (b1, out))"

definition finish :: "bool \<Rightarrow> bar_state \<Rightarrow> bar_state" where
  "finish tty s =
     (case s of (b, out) \<Rightarrow>
        (case cas_finished b of
           (True, b') \<Rightarrow> if tty then dispatch_finish (b', out) else (b', out)
         | (False, b') \<Rightarrow> (b', out)))"

text \<open>The destructor, up to the release of the members.\<close>

definition destroy :: "bool \<Rightarrow> bar_state \<Rightarrow> bar_state" where
  "destroy tty s = (case s of (b, out) \<Rightarrow> if \<not> finished_m b \<and> tty then finish tty s else s)"

subsection \<open>Moves\<close>

text \<open>
  Move assignment compares the addresses of the two bars, so bars live in a store, a map
  from addresses to bars. The move constructor builds the new bar at an address of its
  own. Moving a \<^verbatim>\<open>unique_ptr\<close> leaves the source null.
\<close>

type_synonym addr = nat
type_synonym store = "addr \<rightharpoonup> progress_bar"

definition move_construct :: "addr \<Rightarrow> addr \<Rightarrow> store \<Rightarrow> store" where
  "move_construct new other h =
     (case h other of None \<Rightarrow> h
      | Some ob \<Rightarrow>
          h(new \<mapsto> \<lparr>tracker_m = tracker_m ob, display_m = display_m ob,
                     finished_m = finished_m ob,
                     last_render_time_m = last_render_time_m ob\<rparr>,
            other \<mapsto> ob\<lparr>tracker_m := None, display_m := None, finished_m := True\<rparr>))"

definition move_assign :: "addr \<Rightarrow> addr \<Rightarrow> store \<Rightarrow> store" where
  "move_assign this other h =
     (if this \<noteq> other then
        (case h this of None \<Rightarrow> h
         | Some tb \<Rightarrow> (case h other of None \<Rightarrow> h
             | Some ob \<Rightarrow>
                 h(this \<mapsto> tb\<lparr>tracker_m := tracker_m ob, display_m := display_m ob,
                               finished_m := finished_m ob,
                               last_render_time_m := last_render_time_m ob\<rparr>,
                   other \<mapsto> ob\<lparr>tracker_m := None, display_m := None, finished_m := True\<rparr>)))
      else h)"

text \<open>The destructor of the bar at an address; its storage is released afterwards.\<close>

definition destroy_at :: "bool \<Rightarrow> addr \<Rightarrow> store \<times> dispatch list \<Rightarrow> store \<times> dispatch list" where
  "destroy_at tty a w =
     (case w of (h, out) \<Rightarrow>
        (case h a of None \<Rightarrow> w
         | Some b \<Rightarrow> (h(a := None), snd (destroy tty (b, out)))))"

text \<open>
  The invariant of a bar: an active bar has its tracker and its display. The constructor
  establishes it and every operation keeps it.
\<close>

definition bar_ok :: "progress_bar \<Rightarrow> bool" where
  "bar_ok b = (finished_m b \<or> (tracker_m b \<noteq> None \<and> display_m b \<noteq> None))"

definition store_ok :: "store \<Rightarrow> bool" where
  "store_ok h = (\<forall>a b. h a = Some b \<longrightarrow> bar_ok b)"

text \<open>A sequence of \<^verbatim>\<open>advance\<close> calls on a bar, each with its clock readings.\<close>

type_synonym advance_call = "size_t \<times> time_point \<times> time_point \<times> bool"

fun advances :: "bool \<Rightarrow> advance_call list \<Rightarrow> bar_state \<Rightarrow> bar_state" where
  "advances tty [] s = s"
| "advances tty ((n, now_tracker, now_render, spurious) # cs) s =
     advances tty cs (bar_advance tty n now_tracker now_render spurious s)"

section \<open>Threads\<close>

text \<open>
  Worker threads share one bar and call \<^verbatim>\<open>advance\<close> and \<^verbatim>\<open>finish\<close> on it. Each
  thread runs its calls in order; a call is a sequence of atomic steps, one per access
  to shared state (an atomic read-modify-write, load or store, a clock reading, or a
  dispatch inside the render mutex, which excludes every other dispatch). Between two
  steps of a thread any steps of other threads may run: an execution is a schedule, a list of
  thread numbers, each with the clock reading and the outcome of a weak
  compare-and-swap that the step would see. The program counter of a thread says
  which statement comes next and holds the thread's local variables.

  The accesses are interleaved in one global order. For the counter, the write cursor,
  the finished flag and the last render timestamp this is what C++ guarantees whatever
  the memory order: each atomic object has one modification order, and a
  read-modify-write reads the last value before its own in that order. The weaker
  visibility of the relaxed stores to the history slots is not modelled.
\<close>

datatype call = Advance size_t | Finish_call

datatype pc =
    Idle
  | Adv_fetch_current size_t
  | Adv_fetch_index size_t
  | Adv_read_clock size_t nat
  | Adv_store_progress size_t nat int64_t
  | Adv_store_timestamp nat int64_t
  | Ren_guard
  | Ren_read_clock
  | Ren_load_last int64_t
  | Ren_cas int64_t int64_t
  | Ren_dispatch
  | Fin_cas
  | Fin_dispatch

record thread =
  pc :: pc
  pending :: "call list"

record config =
  shared_bar :: progress_bar
  dispatched :: "dispatch list"
  threads :: "thread list"

definition with_tracker :: "(progress_tracker \<Rightarrow> progress_tracker) \<Rightarrow> progress_bar \<Rightarrow> progress_bar" where
  "with_tracker f b =
     (case tracker_m b of None \<Rightarrow> b | Some tr \<Rightarrow> b\<lparr>tracker_m := Some (f tr)\<rparr>)"

text \<open>
  One step of a thread on the shared bar and output. The steps of \<^verbatim>\<open>advance\<close> are the
  statements of \<^verbatim>\<open>progress_tracker::advance\<close> followed by those of
  \<^verbatim>\<open>try_render\<close>; the steps of \<^verbatim>\<open>finish\<close> are the compare-and-swap and the
  guarded dispatch.
\<close>

fun thread_step ::
  "bool \<Rightarrow> time_point \<Rightarrow> bool \<Rightarrow> thread \<Rightarrow> progress_bar \<Rightarrow> dispatch list
     \<Rightarrow> thread \<times> progress_bar \<times> dispatch list" where
  "thread_step tty now spurious t b out =
     (case pc t of
        Idle \<Rightarrow>
          (case pending t of
             [] \<Rightarrow> (t, b, out)
           | Advance n # cs \<Rightarrow>
               (\<lparr>pc = (if tracker_m b = None then Ren_guard else Adv_fetch_current n),
                 pending = cs\<rparr>, b, out)
           | Finish_call # cs \<Rightarrow> (\<lparr>pc = Fin_cas, pending = cs\<rparr>, b, out))
      | Adv_fetch_current n \<Rightarrow>
          (case tracker_m b of
             None \<Rightarrow> (t\<lparr>pc := Ren_guard\<rparr>, b, out)
           | Some tr \<Rightarrow>
               (case fetch_add_current n tr of
                  (old, tr') \<Rightarrow> (t\<lparr>pc := Adv_fetch_index (old + n)\<rparr>,
                                 b\<lparr>tracker_m := Some tr'\<rparr>, out)))
      | Adv_fetch_index new_progress \<Rightarrow>
          (case tracker_m b of
             None \<Rightarrow> (t\<lparr>pc := Ren_guard\<rparr>, b, out)
           | Some tr \<Rightarrow>
               (case fetch_add_history_index tr of
                  (old_idx, tr') \<Rightarrow>
                    (t\<lparr>pc := Adv_read_clock new_progress (unat old_idx mod HISTORY_SIZE)\<rparr>,
                     b\<lparr>tracker_m := Some tr'\<rparr>, out)))
      | Adv_read_clock new_progress idx \<Rightarrow>
          (case tracker_m b of
             None \<Rightarrow> (t\<lparr>pc := Ren_guard\<rparr>, b, out)
           | Some tr \<Rightarrow>
               (t\<lparr>pc := Adv_store_progress new_progress idx
                           (to_microseconds (now - start_time_m tr))\<rparr>, b, out))
      | Adv_store_progress new_progress idx ts \<Rightarrow>
          (t\<lparr>pc := Adv_store_timestamp idx ts\<rparr>,
           with_tracker (store_progress idx new_progress) b, out)
      | Adv_store_timestamp idx ts \<Rightarrow>
          (t\<lparr>pc := Ren_guard\<rparr>, with_tracker (store_timestamp idx ts) b, out)
      | Ren_guard \<Rightarrow>
          (if \<not> tty \<or> tracker_m b = None \<or> display_m b = None
           then (t\<lparr>pc := Idle\<rparr>, b, out)
           else (t\<lparr>pc := Ren_read_clock\<rparr>, b, out))
      | Ren_read_clock \<Rightarrow> (t\<lparr>pc := Ren_load_last (to_milliseconds now)\<rparr>, b, out)
      | Ren_load_last now_ms \<Rightarrow> (t\<lparr>pc := Ren_cas now_ms (last_render_time_m b)\<rparr>, b, out)
      | Ren_cas now_ms last_ms \<Rightarrow>
          (if now_ms - last_ms \<ge> min_render_interval then
             (case cas_last_render_time last_ms now_ms spurious b of
                (True, b') \<Rightarrow> (t\<lparr>pc := Ren_dispatch\<rparr>, b', out)
              | (False, b') \<Rightarrow> (t\<lparr>pc := Idle\<rparr>, b', out))
           else (t\<lparr>pc := Idle\<rparr>, b, out))
      | Ren_dispatch \<Rightarrow>
          (case dispatch_render (b, out) of (b', out') \<Rightarrow> (t\<lparr>pc := Idle\<rparr>, b', out'))
      | Fin_cas \<Rightarrow>
          (case cas_finished b of
             (True, b') \<Rightarrow> (t\<lparr>pc := Fin_dispatch\<rparr>, b', out)
           | (False, b') \<Rightarrow> (t\<lparr>pc := Idle\<rparr>, b', out))
      | Fin_dispatch \<Rightarrow>
          (if tty then (case dispatch_finish (b, out) of (b', out') \<Rightarrow> (t\<lparr>pc := Idle\<rparr>, b', out'))
           else (t\<lparr>pc := Idle\<rparr>, b, out)))"

type_synonym sched_entry = "nat \<times> time_point \<times> bool"

definition step :: "bool \<Rightarrow> sched_entry \<Rightarrow> config \<Rightarrow> config" where
  "step tty e c =
     (case e of (tid, now, spurious) \<Rightarrow>
        if tid < length (threads c) then
          (case thread_step tty now spurious (threads c ! tid) (shared_bar c) (dispatched c) of
             (t', b', out') \<Rightarrow>
               \<lparr>shared_bar = b', dispatched = out', threads = (threads c)[tid := t']\<rparr>)
        else c)"

fun run :: "bool \<Rightarrow> sched_entry list \<Rightarrow> config \<Rightarrow> config" where
  "run tty [] c = c"
| "run tty (e # es) c = run tty es (step tty e c)"

definition thread_done :: "thread \<Rightarrow> bool" where
  "thread_done t = (pc t = Idle \<and> pending t = [])"

definition thread_idle :: "thread \<Rightarrow> bool" where
  "thread_idle t = (pc t = Idle)"

text \<open>What the threads still owe the counter: the increments not yet added.\<close>

fun owed_call :: "call \<Rightarrow> size_t" where
  "owed_call (Advance n) = n"
| "owed_call Finish_call = 0"

definition owed_thread :: "thread \<Rightarrow> size_t" where
  "owed_thread t =
     (case pc t of Adv_fetch_current n \<Rightarrow> n | _ \<Rightarrow> 0) + sum_list (map owed_call (pending t))"

definition owed :: "config \<Rightarrow> size_t" where
  "owed c = sum_list (map owed_thread (threads c))"

text \<open>Counts of threads between a successful compare-and-swap and its dispatch.\<close>

definition at_fin_dispatch :: "thread \<Rightarrow> nat" where
  "at_fin_dispatch t = (if pc t = Fin_dispatch then 1 else 0)"

definition at_ren_dispatch :: "thread \<Rightarrow> nat" where
  "at_ren_dispatch t = (if pc t = Ren_dispatch then 1 else 0)"

definition finish_calls_left :: "thread \<Rightarrow> nat" where
  "finish_calls_left t =
     (if pc t = Fin_cas then 1 else 0) + length (filter (\<lambda>c. c = Finish_call) (pending t))"

definition finishes :: "config \<Rightarrow> nat" where
  "finishes c = length (filter is_Finish (dispatched c)) + sum_list (map at_fin_dispatch (threads c))"

definition renders :: "config \<Rightarrow> nat" where
  "renders c = length (filter is_Render (dispatched c)) + sum_list (map at_ren_dispatch (threads c))"

definition finish_calls :: "config \<Rightarrow> nat" where
  "finish_calls c = sum_list (map finish_calls_left (threads c))"

definition unfinished :: "progress_bar \<Rightarrow> nat" where
  "unfinished b = (if finished_m b then 0 else 1)"

section \<open>The iterator and range wrappers\<close>

text \<open>
  \<^verbatim>\<open>class progress_iterator\<close> over a container of \<open>n\<close> elements: the underlying iterator
  is a position, \<^verbatim>\<open>begin\<close> is position 0 and \<^verbatim>\<open>end\<close> is position \<open>n\<close>. The pointer
  \<^verbatim>\<open>bar_\<close> either points at the bar of the range or is null.
\<close>

record progress_iterator =
  it_current_m :: nat
  it_end_m :: nat
  it_bar_m :: bool

text \<open>\<^verbatim>\<open>operator++\<close> (prefix).\<close>

definition iter_incr ::
  "bool \<Rightarrow> time_point \<Rightarrow> time_point \<Rightarrow> bool \<Rightarrow> progress_iterator \<times> bar_state
     \<Rightarrow> progress_iterator \<times> bar_state" where
  "iter_incr tty now_tracker now_render spurious x =
     (case x of (it, s) \<Rightarrow>
        let it' = it\<lparr>it_current_m := it_current_m it + 1\<rparr>
        in if it_bar_m it' \<and> it_current_m it' \<noteq> it_end_m it'
           then (it', bar_advance tty 1 now_tracker now_render spurious s)
           else (it', s))"

text \<open>\<^verbatim>\<open>progress_range::begin\<close> and \<^verbatim>\<open>progress_range::end\<close>.\<close>

definition range_begin :: "nat \<Rightarrow> progress_iterator" where
  "range_begin n = \<lparr>it_current_m = 0, it_end_m = n, it_bar_m = True\<rparr>"

definition range_end :: "nat \<Rightarrow> progress_iterator" where
  "range_end n = \<lparr>it_current_m = n, it_end_m = n, it_bar_m = False\<rparr>"

text \<open>
  The loop \<^verbatim>\<open>for (; it != e; ++it)\<close> of a range-based \<^verbatim>\<open>for\<close>, with a body that does not
  touch the bar. \<^verbatim>\<open>operator!=\<close> compares the positions. \<open>clk i\<close> gives the clock readings
  and the outcome of the weak compare-and-swap for the increment at position \<open>i\<close>.
\<close>

partial_function (option) iterate ::
  "bool \<Rightarrow> (nat \<Rightarrow> time_point \<times> time_point \<times> bool) \<Rightarrow> progress_iterator \<Rightarrow> progress_iterator
     \<Rightarrow> bar_state \<Rightarrow> (progress_iterator \<times> bar_state) option" where
  "iterate tty clk it e s =
     (if it_current_m it \<noteq> it_current_m e then
        (case clk (it_current_m it) of
           (now_tracker, now_render, spurious) \<Rightarrow>
             (case iter_incr tty now_tracker now_render spurious (it, s) of
                (it', s') \<Rightarrow> iterate tty clk it' e s'))
      else Some (it, s))"

definition range_for ::
  "bool \<Rightarrow> (nat \<Rightarrow> time_point \<times> time_point \<times> bool) \<Rightarrow> nat \<Rightarrow> bar_state
     \<Rightarrow> (progress_iterator \<times> bar_state) option" where
  "range_for tty clk n s = iterate tty clk (range_begin n) (range_end n) s"

text \<open>The calls of \<^verbatim>\<open>advance()\<close> (one unit each) made at positions \<open>i, ..., j - 1\<close>.\<close>

definition unit_advances ::
  "(nat \<Rightarrow> time_point \<times> time_point \<times> bool) \<Rightarrow> nat \<Rightarrow> nat \<Rightarrow> advance_call list" where
  "unit_advances clk i j = map (\<lambda>k. case clk k of (t1, t2, sp) \<Rightarrow> (1, t1, t2, sp)) [i..<j]"

section \<open>Properties\<close>

subsection \<open>Rounding to a double\<close>

lemma two_powi_pos: "0 < (2::real) powi k"
  by simp

lemma two_powi_less_iff: "(2::real) powi a < 2 powi b \<longleftrightarrow> a < b"
proof
  assume "(2::real) powi a < 2 powi b"
  show "a < b"
  proof (rule ccontr)
    assume "\<not> a < b"
    then have "b \<le> a" by simp
    then have "(2::real) powi b \<le> 2 powi a" by (intro power_int_increasing) simp_all
    with \<open>(2::real) powi a < 2 powi b\<close> show False by simp
  qed
next
  assume "a < b"
  then show "(2::real) powi a < 2 powi b" by (intro power_int_strict_increasing) simp_all
qed

lemma two_powi_le_iff: "(2::real) powi a \<le> 2 powi b \<longleftrightarrow> a \<le> b"
  using two_powi_less_iff [of b a] by (auto simp: not_less [symmetric])

lemma two_powi_Suc: "(2::real) powi (k + 1) = 2 * 2 powi k"
  by (simp add: power_int_add)

lemma binade_bounds:
  assumes "0 < x"
  shows "2 powi (binade x) \<le> x" and "x < 2 powi (binade x + 1)"
proof -
  have "2 powi (binade x) \<le> x \<and> x < 2 powi (binade x + 1)"
  proof (cases "1 \<le> x")
    case True
    define n where "n = \<lfloor>x\<rfloor>"
    have n: "0 < n" using True by (simp add: n_def)
    have b1: "1 \<le> bitlen n" using n by (simp add: bitlen_alt_def)
    from bitlen_bounds [OF n] have lo: "2 ^ nat (bitlen n - 1) \<le> n" and hi: "n < 2 ^ nat (bitlen n)"
      by simp_all
    have e: "binade x = bitlen n - 1" using True by (simp add: binade_def n_def)
    have "(2::real) powi (bitlen n - 1) = 2 ^ nat (bitlen n - 1)"
      using b1 by (simp add: power_int_nonneg_exp)
    also have "\<dots> = of_int (2 ^ nat (bitlen n - 1))" by simp
    also have "\<dots> \<le> of_int n" using lo by (simp only: of_int_le_iff)
    also have "\<dots> \<le> x" by (simp add: n_def)
    finally have L: "2 powi (binade x) \<le> x" by (simp add: e)
    have "n + 1 \<le> 2 ^ nat (bitlen n)" using hi by simp
    then have "real_of_int (n + 1) \<le> of_int (2 ^ nat (bitlen n))" by (simp only: of_int_le_iff)
    moreover have "x < real_of_int (n + 1)" by (simp add: n_def)
    ultimately have "x < of_int (2 ^ nat (bitlen n))" by linarith
    also have "\<dots> = 2 powi (bitlen n)" using b1 by (simp add: power_int_nonneg_exp)
    finally have "x < 2 powi (binade x + 1)" by (simp add: e)
    with L show ?thesis by simp
  next
    case False
    then have x1: "x < 1" by simp
    define y where "y = 1 / x"
    have y1: "1 < y" using assms x1 by (simp add: y_def)
    define m where "m = \<lceil>y\<rceil> - 1"
    have m: "0 < m" using y1 by (simp add: m_def less_ceiling_iff)
    have b1: "1 \<le> bitlen m" using m by (simp add: bitlen_alt_def)
    from bitlen_bounds [OF m] have lo: "2 ^ nat (bitlen m - 1) \<le> m" and hi: "m < 2 ^ nat (bitlen m)"
      by simp_all
    have e: "binade x = - bitlen m" using False by (simp add: binade_def m_def y_def)
    have "m + 1 \<le> 2 ^ nat (bitlen m)" using hi by simp
    then have "real_of_int (m + 1) \<le> of_int (2 ^ nat (bitlen m))" by (simp only: of_int_le_iff)
    moreover have "y \<le> real_of_int (m + 1)" by (simp add: m_def)
    ultimately have "y \<le> 2 ^ nat (bitlen m)" by simp
    then have "y \<le> 2 powi (bitlen m)" using b1 by (simp add: power_int_nonneg_exp)
    then have "1 / (2 powi (bitlen m)) \<le> 1 / y"
      using y1 by (intro divide_left_mono) (simp_all add: two_powi_pos)
    then have L: "2 powi (binade x) \<le> x"
      using assms by (simp add: e y_def power_int_minus_divide)
    have "real_of_int m < y" by (simp add: m_def) linarith
    moreover have "(2::real) ^ nat (bitlen m - 1) \<le> of_int m" using lo by simp
    ultimately have "2 ^ nat (bitlen m - 1) < y" by linarith
    then have "2 powi (bitlen m - 1) < y" using b1 by (simp add: power_int_nonneg_exp)
    moreover have "0 < y * 2 powi (bitlen m - 1)"
      using y1 by (intro mult_pos_pos) simp_all
    ultimately have "1 / y < 1 / (2 powi (bitlen m - 1))"
      by (intro divide_strict_left_mono) simp_all
    then have "x < 1 / (2 powi (bitlen m - 1))"
      using assms by (simp add: y_def)
    moreover have "binade x + 1 = - (bitlen m - 1)" using e by simp
    then have "(2::real) powi (binade x + 1) = 1 / 2 powi (bitlen m - 1)"
      by (simp only: power_int_minus_divide)
    ultimately have "x < 2 powi (binade x + 1)" by simp
    with L show ?thesis by simp
  qed
  then show "2 powi (binade x) \<le> x" and "x < 2 powi (binade x + 1)" by simp_all
qed

lemma binade_unique:
  assumes "2 powi e \<le> x" and "x < 2 powi (e + 1)"
  shows "binade x = e"
proof -
  have x: "0 < x" using assms(1) two_powi_pos [of e] by linarith
  note b = binade_bounds [OF x]
  have "(2::real) powi e < 2 powi (binade x + 1)" using assms(1) b(2) by linarith
  then have 1: "e < binade x + 1" by (simp only: two_powi_less_iff)
  have "(2::real) powi (binade x) < 2 powi (e + 1)" using assms(2) b(1) by linarith
  then have 2: "binade x < e + 1" by (simp only: two_powi_less_iff)
  from 1 2 show ?thesis by simp
qed

lemma binade_mono: "0 < x \<Longrightarrow> x \<le> y \<Longrightarrow> binade x \<le> binade y"
proof -
  assume x: "0 < x" and xy: "x \<le> y"
  then have y: "0 < y" by simp
  have "(2::real) powi (binade x) < 2 powi (binade y + 1)"
    using binade_bounds(1) [OF x] binade_bounds(2) [OF y] xy by linarith
  then have "binade x < binade y + 1" by (simp only: two_powi_less_iff)
  then show ?thesis by simp
qed

lemma round_half_even_bounds:
  shows "y - 1 / 2 \<le> of_int (round_half_even y)"
    and "of_int (round_half_even y) \<le> y + 1 / 2"
proof -
  define f where "f = \<lfloor>y\<rfloor>"
  define d where "d = y - of_int f"
  have f: "of_int f \<le> y" "y < of_int f + 1" unfolding f_def by linarith+
  have r: "round_half_even y
             = (if d < 1 / 2 then f else if 1 / 2 < d then f + 1 else if even f then f else f + 1)"
    by (simp add: round_half_even_def Let_def f_def d_def)
  consider "d < 1 / 2" | "1 / 2 < d" | "d = 1 / 2" by linarith
  then have "y - 1 / 2 \<le> of_int (round_half_even y) \<and> of_int (round_half_even y) \<le> y + 1 / 2"
  proof cases
    case 1
    then have "round_half_even y = f" by (simp add: r)
    then show ?thesis using 1 f by (simp add: d_def)
  next
    case 2
    then have "round_half_even y = f + 1" by (simp add: r)
    then show ?thesis using 2 f by (simp add: d_def)
  next
    case 3
    then have "round_half_even y = f \<or> round_half_even y = f + 1" by (simp add: r)
    then show ?thesis using 3 f by (auto simp: d_def)
  qed
  then show "y - 1 / 2 \<le> of_int (round_half_even y)"
    and "of_int (round_half_even y) \<le> y + 1 / 2" by simp_all
qed

lemma round_half_even_of_int: "round_half_even (of_int k) = k"
  by (simp add: round_half_even_def Let_def)

lemma round_half_even_mono:
  assumes "y \<le> z"
  shows "round_half_even y \<le> round_half_even z"
proof (rule ccontr)
  assume "\<not> round_half_even y \<le> round_half_even z"
  then have "round_half_even z + 1 \<le> round_half_even y" by simp
  then have g: "real_of_int (round_half_even z) + 1 \<le> of_int (round_half_even y)"
    by (metis of_int_1 of_int_add of_int_le_iff)
  have "of_int (round_half_even y) \<le> y + 1 / 2" by (rule round_half_even_bounds(2))
  moreover have "z - 1 / 2 \<le> of_int (round_half_even z)" by (rule round_half_even_bounds(1))
  ultimately have yz: "y = z" using g assms by linarith
  then show False using \<open>\<not> round_half_even y \<le> round_half_even z\<close> by simp
qed

lemma round_double_pos_eq:
  "0 < x \<Longrightarrow>
   round_double x = of_int (round_half_even (x / 2 powi (binade x - 52))) * 2 powi (binade x - 52)"
  by (simp add: round_double_def Let_def)

lemma round_double_zero: "round_double 0 = 0"
  by (simp add: round_double_def)

lemma round_double_minus: "round_double (- x) = - round_double x"
  by (simp add: round_double_def Let_def)

lemma scaled_bounds:
  assumes "0 < x"
  shows "2 ^ 52 \<le> x / 2 powi (binade x - 52)" and "x / 2 powi (binade x - 52) < 2 ^ 53"
proof -
  define r where "r = x / 2 powi (binade x)"
  have p: "0 < (2::real) powi (binade x)" by simp
  note b = binade_bounds [OF assms]
  have e: "x / 2 powi (binade x - 52) = r * 2 ^ 52"
    by (simp add: power_int_diff r_def)
  have "1 \<le> r" unfolding r_def using b(1) p by (simp add: pos_le_divide_eq)
  then have lo: "2 ^ 52 \<le> r * 2 ^ 52" by simp
  have "x < 2 * 2 powi (binade x)" using b(2) by (simp add: two_powi_Suc)
  then have "r < 2" unfolding r_def using p by (simp add: pos_divide_less_eq)
  then have hi: "r * 2 ^ 52 < 2 ^ 53" by simp
  show "2 ^ 52 \<le> x / 2 powi (binade x - 52)" unfolding e by (rule lo)
  show "x / 2 powi (binade x - 52) < 2 ^ 53" unfolding e by (rule hi)
qed

lemma round_double_binade:
  assumes "0 < x"
  shows "2 powi (binade x) \<le> round_double x" and "round_double x \<le> 2 powi (binade x + 1)"
proof -
  let ?u = "(2::real) powi (binade x - 52)"
  let ?q = "x / ?u"
  have u: "0 < ?u" by simp
  have "round_half_even (of_int (2 ^ 52)) \<le> round_half_even ?q"
    using scaled_bounds(1) [OF assms] by (intro round_half_even_mono) simp
  then have lo: "2 ^ 52 \<le> round_half_even ?q" by (simp only: round_half_even_of_int)
  have "round_half_even ?q \<le> round_half_even (of_int (2 ^ 53))"
    using scaled_bounds(2) [OF assms] by (intro round_half_even_mono) simp
  then have hi: "round_half_even ?q \<le> 2 ^ 53" by (simp only: round_half_even_of_int)
  have e0: "(2::real) powi (binade x) = 2 ^ 52 * ?u" by (simp add: power_int_diff)
  have e1: "(2::real) powi (binade x + 1) = 2 ^ 53 * ?u" by (simp add: power_int_diff power_int_add)
  have "(2::real) ^ 52 \<le> of_int (round_half_even ?q)" using lo by simp
  then show "2 powi (binade x) \<le> round_double x"
    unfolding round_double_pos_eq [OF assms] e0 using u by (intro mult_right_mono) simp_all
  have "of_int (round_half_even ?q) \<le> (2::real) ^ 53" using hi by simp
  then show "round_double x \<le> 2 powi (binade x + 1)"
    unfolding round_double_pos_eq [OF assms] e1 using u by (intro mult_right_mono) simp_all
qed

lemma round_double_pos: "0 < x \<Longrightarrow> 0 < round_double x"
  using round_double_binade(1) [of x] two_powi_pos [of "binade x"] by linarith

lemma round_double_nonneg: "0 \<le> x \<Longrightarrow> 0 \<le> round_double x"
  using round_double_pos [of x] by (cases "x = 0") (simp_all add: round_double_zero less_imp_le)

lemma round_double_eq_0_iff: "0 \<le> x \<Longrightarrow> round_double x = 0 \<longleftrightarrow> x = 0"
  using round_double_pos [of x] by (cases "x = 0") (simp_all add: round_double_zero)

lemma round_double_mono_pos:
  assumes "0 < x" and "x \<le> y"
  shows "round_double x \<le> round_double y"
proof -
  have y: "0 < y" using assms by simp
  have le: "binade x \<le> binade y" using assms by (rule binade_mono)
  show ?thesis
  proof (cases "binade x = binade y")
    case True
    let ?u = "(2::real) powi (binade y - 52)"
    have "x / ?u \<le> y / ?u" using assms(2) by (simp add: divide_right_mono)
    then have "round_half_even (x / ?u) \<le> round_half_even (y / ?u)"
      by (rule round_half_even_mono)
    then have "real_of_int (round_half_even (x / ?u)) * ?u \<le> of_int (round_half_even (y / ?u)) * ?u"
      by (intro mult_right_mono) simp_all
    then show ?thesis
      unfolding round_double_pos_eq [OF assms(1)] round_double_pos_eq [OF y] True .
  next
    case False
    then have "binade x + 1 \<le> binade y" using le by simp
    then have "(2::real) powi (binade x + 1) \<le> 2 powi (binade y)"
      by (simp only: two_powi_le_iff)
    then show ?thesis
      using round_double_binade(2) [OF assms(1)] round_double_binade(1) [OF y] by linarith
  qed
qed

lemma round_double_mono: "0 \<le> x \<Longrightarrow> x \<le> y \<Longrightarrow> round_double x \<le> round_double y"
  using round_double_mono_pos [of x y] round_double_nonneg [of y]
  by (cases "x = 0") (simp_all add: round_double_zero)

lemma round_double_error:
  assumes "0 < x"
  shows "\<bar>round_double x - x\<bar> \<le> x / 2 ^ 53"
proof -
  define u where "u = (2::real) powi (binade x - 52)"
  define q where "q = x / u"
  define k where "k = real_of_int (round_half_even q)"
  have u: "0 < u" by (simp add: u_def)
  have x: "x = q * u" using u by (simp add: q_def)
  have rd: "round_double x = k * u"
    unfolding round_double_pos_eq [OF assms] k_def q_def u_def ..
  have "q - 1 / 2 \<le> k" "k \<le> q + 1 / 2"
    unfolding k_def by (rule round_half_even_bounds)+
  then have "\<bar>k - q\<bar> \<le> 1 / 2" by linarith
  then have "\<bar>k - q\<bar> * u \<le> 1 / 2 * u"
    using u by (intro mult_right_mono) simp_all
  moreover have "\<bar>k - q\<bar> * u = \<bar>(k - q) * u\<bar>"
    using u by (simp add: abs_mult)
  moreover have "(k - q) * u = round_double x - x"
    unfolding rd using x by (simp add: left_diff_distrib)
  moreover have "1 / 2 * u = 2 powi (binade x) / 2 ^ 53"
    by (simp add: power_int_diff u_def)
  moreover have "2 powi (binade x) / 2 ^ 53 \<le> x / 2 ^ 53"
    using binade_bounds(1) [OF assms] by (simp add: divide_right_mono)
  ultimately show ?thesis by linarith
qed

lemma round_double_exact:
  assumes m: "0 < m" "m < 2 ^ 53"
  shows "round_double (of_int m * 2 powi j) = of_int m * 2 powi j"
proof -
  let ?x = "real_of_int m * 2 powi j"
  have x: "0 < ?x" using m(1) by simp
  let ?e = "binade ?x"
  have "real_of_int m < 2 ^ 53" using m(2) by simp
  then have "?x < 2 ^ 53 * 2 powi j" by (intro mult_strict_right_mono) simp_all
  also have "\<dots> = 2 powi (53 + j)" by (simp add: power_int_add)
  finally have "(2::real) powi ?e < 2 powi (53 + j)"
    using binade_bounds(1) [OF x] by linarith
  then have "?e < 53 + j" by (simp only: two_powi_less_iff)
  then have k: "0 \<le> j - ?e + 52" by simp
  have "?x / 2 powi (?e - 52) = of_int m * 2 powi (j - (?e - 52))"
    by (simp add: power_int_diff)
  also have "j - (?e - 52) = j - ?e + 52" by simp
  also have "(2::real) powi (j - ?e + 52) = 2 ^ nat (j - ?e + 52)"
    using k by (simp add: power_int_nonneg_exp)
  also have "of_int m * (2::real) ^ nat (j - ?e + 52) = of_int (m * 2 ^ nat (j - ?e + 52))"
    by simp
  finally have q: "?x / 2 powi (?e - 52) = of_int (m * 2 ^ nat (j - ?e + 52))" .
  have "round_double ?x = of_int (m * 2 ^ nat (j - ?e + 52)) * 2 powi (?e - 52)"
    unfolding round_double_pos_eq [OF x] q round_half_even_of_int ..
  also have "\<dots> = ?x / 2 powi (?e - 52) * 2 powi (?e - 52)"
    unfolding q ..
  also have "\<dots> = ?x" by simp
  finally show ?thesis .
qed

lemma round_double_of_int:
  assumes "0 \<le> m" and "m \<le> 2 ^ 53"
  shows "round_double (of_int m) = of_int m"
proof -
  consider "m = 0" | "0 < m" "m < 2 ^ 53" | "m = 2 ^ 53" using assms by linarith
  then show ?thesis
  proof cases
    case 1
    then show ?thesis by (simp add: round_double_zero)
  next
    case 2
    then show ?thesis using round_double_exact [of m 0] by simp
  next
    case 3
    have "round_double (of_int 1 * 2 powi 53) = of_int 1 * 2 powi 53"
      by (rule round_double_exact) simp_all
    then show ?thesis using 3 by simp
  qed
qed

lemma round_double_rel:
  assumes "0 < x"
  shows "x * (1 - 1 / 2 ^ 53) \<le> round_double x" and "round_double x \<le> x * (1 + 1 / 2 ^ 53)"
proof -
  have "\<bar>round_double x - x\<bar> \<le> x / 2 ^ 53" using assms by (rule round_double_error)
  then have "x - x / 2 ^ 53 \<le> round_double x" "round_double x \<le> x + x / 2 ^ 53"
    by linarith+
  then show "x * (1 - 1 / 2 ^ 53) \<le> round_double x" and "round_double x \<le> x * (1 + 1 / 2 ^ 53)"
    by (simp_all add: algebra_simps)
qed

text \<open>
  The double evaluation of \<open>K * P / T\<close>, with \<open>P\<close> and \<open>T\<close> converted to doubles first,
  is within a relative error of \<open>2\<^sup>-\<^sup>5\<^sup>0\<close> of the exact quotient.
\<close>

lemma scaled_quotient_error:
  assumes K: "0 < K" and P: "0 \<le> P" and T: "0 < T"
  shows "\<bar>round_double (round_double (K * round_double P) / round_double T) - K * P / T\<bar>
           \<le> K * P / T / 2 ^ 50"
proof (cases "P = 0")
  case True
  then show ?thesis by (simp add: round_double_zero)
next
  case False
  then have P: "0 < P" using P by simp
  define eps :: real where "eps = 1 / 2 ^ 53"
  define a where "a = round_double P"
  define b where "b = round_double (K * a)"
  define c where "c = round_double T"
  define r where "r = round_double (b / c)"
  define Q where "Q = K * P / T"
  have eps: "0 < eps" "eps < 1" by (simp_all add: eps_def)
  have up: "(1 + eps) * (1 + eps) * (1 + eps) \<le> (1 + 1 / 2 ^ 50) * (1 - eps)"
    by (simp add: eps_def)
  have lo: "(1 - 1 / 2 ^ 50) * (1 + eps) \<le> (1 - eps) * (1 - eps) * (1 - eps)"
    by (simp add: eps_def)
  have a0: "0 < a" unfolding a_def using P by (rule round_double_pos)
  have Ka: "0 < K * a" using K a0 by simp
  have b0: "0 < b" unfolding b_def using Ka by (rule round_double_pos)
  have c0: "0 < c" unfolding c_def using T by (rule round_double_pos)
  have bc: "0 < b / c" using b0 c0 by simp
  have Q0: "0 < Q" unfolding Q_def using K P T by simp
  note ra = round_double_rel [OF P, folded a_def eps_def]
  note rb = round_double_rel [OF Ka, folded b_def eps_def]
  note rc = round_double_rel [OF T, folded c_def eps_def]
  note rr = round_double_rel [OF bc, folded r_def eps_def]
  have b_hi: "b \<le> K * P * ((1 + eps) * (1 + eps))"
  proof -
    have "K * a \<le> K * (P * (1 + eps))" using ra(2) K by (intro mult_left_mono) simp_all
    then have "K * a * (1 + eps) \<le> K * (P * (1 + eps)) * (1 + eps)"
      using eps by (intro mult_right_mono) simp_all
    then show ?thesis using rb(2) by (simp add: algebra_simps)
  qed
  have b_lo: "K * P * ((1 - eps) * (1 - eps)) \<le> b"
  proof -
    have "K * (P * (1 - eps)) \<le> K * a" using ra(1) K by (intro mult_left_mono) simp_all
    then have "K * (P * (1 - eps)) * (1 - eps) \<le> K * a * (1 - eps)"
      using eps by (intro mult_right_mono) simp_all
    then show ?thesis using rb(1) by (simp add: algebra_simps)
  qed
  have T_lo: "0 < T * (1 - eps)" using T eps by simp
  have T_hi: "0 < T * (1 + eps)" using T eps by simp
  have q_hi: "b / c \<le> K * P * ((1 + eps) * (1 + eps)) / (T * (1 - eps))"
    using b0 b_hi T_lo rc(1) by (intro frac_le) simp_all
  have q_lo: "K * P * ((1 - eps) * (1 - eps)) / (T * (1 + eps)) \<le> b / c"
  proof -
    have "0 \<le> K * P * ((1 - eps) * (1 - eps))" using K P eps by simp
    then show ?thesis using b_lo c0 rc(2) by (intro frac_le) simp_all
  qed
  have r_hi: "r \<le> Q * (1 + 1 / 2 ^ 50)"
  proof -
    have "r \<le> K * P * ((1 + eps) * (1 + eps)) / (T * (1 - eps)) * (1 + eps)"
    proof -
      have "b / c * (1 + eps) \<le> K * P * ((1 + eps) * (1 + eps)) / (T * (1 - eps)) * (1 + eps)"
        using q_hi eps by (intro mult_right_mono) simp_all
      then show ?thesis using rr(2) by linarith
    qed
    also have "\<dots> = Q * ((1 + eps) * (1 + eps) * (1 + eps) / (1 - eps))"
      by (simp add: Q_def)
    also have "\<dots> \<le> Q * (1 + 1 / 2 ^ 50)"
    proof -
      have "(1 + eps) * (1 + eps) * (1 + eps) / (1 - eps) \<le> 1 + 1 / 2 ^ 50"
        using up eps by (simp add: pos_divide_le_eq)
      then show ?thesis using Q0 by (intro mult_left_mono) simp_all
    qed
    finally show ?thesis .
  qed
  have r_lo: "Q * (1 - 1 / 2 ^ 50) \<le> r"
  proof -
    have "Q * (1 - 1 / 2 ^ 50) \<le> Q * ((1 - eps) * (1 - eps) * (1 - eps) / (1 + eps))"
    proof -
      have "1 - 1 / 2 ^ 50 \<le> (1 - eps) * (1 - eps) * (1 - eps) / (1 + eps)"
        using lo eps by (simp add: pos_le_divide_eq)
      then show ?thesis using Q0 by (intro mult_left_mono) simp_all
    qed
    also have "\<dots> = K * P * ((1 - eps) * (1 - eps)) / (T * (1 + eps)) * (1 - eps)"
      by (simp add: Q_def)
    also have "\<dots> \<le> b / c * (1 - eps)"
      using q_lo eps by (intro mult_right_mono) simp_all
    also have "\<dots> \<le> r" using rr(1) .
    finally show ?thesis .
  qed
  have "\<bar>r - Q\<bar> \<le> Q / 2 ^ 50"
  proof -
    define d :: real where "d = Q / 2 ^ 50"
    have "Q * (1 + 1 / 2 ^ 50) = Q + d" "Q * (1 - 1 / 2 ^ 50) = Q - d"
      by (simp_all add: d_def algebra_simps)
    then have "r \<le> Q + d" "Q - d \<le> r" using r_hi r_lo by simp_all
    then have "\<bar>r - Q\<bar> \<le> d" by linarith
    then show ?thesis by (simp add: d_def)
  qed
  then show ?thesis
    unfolding r_def b_def a_def c_def Q_def .
qed

subsection \<open>Conversions\<close>

lemma real_uint_nonneg: "0 \<le> real_of_int (uint n)"
  unfolding of_int_0_le_iff by (rule uint_ge_0)

lemma real_uint_mono: "a \<le> b \<Longrightarrow> real_of_int (uint a) \<le> real_of_int (uint b)"
  unfolding of_int_le_iff by (simp only: word_le_def)

lemma real_uint_pos: "n \<noteq> 0 \<Longrightarrow> 0 < real_of_int (uint n)"
  unfolding of_int_0_less_iff using uint_0_iff [of n] uint_ge_0 [of n] by linarith

lemma to_double_nonneg: "0 \<le> to_double n"
  unfolding to_double_def using real_uint_nonneg by (rule round_double_nonneg)

lemma to_double_eq_0_iff: "to_double n = 0 \<longleftrightarrow> n = 0"
proof -
  have "0 \<le> real_of_int (uint n)" by (rule real_uint_nonneg)
  then have "round_double (real_of_int (uint n)) = 0 \<longleftrightarrow> real_of_int (uint n) = 0"
    by (rule round_double_eq_0_iff)
  then show ?thesis
    unfolding to_double_def of_int_eq_0_iff uint_0_iff .
qed

lemma to_double_pos: "n \<noteq> 0 \<Longrightarrow> 0 < to_double n"
  using to_double_nonneg [of n] to_double_eq_0_iff [of n] by linarith

lemma to_double_mono: "a \<le> b \<Longrightarrow> to_double a \<le> to_double b"
  unfolding to_double_def
  by (rule round_double_mono) (rule real_uint_nonneg, erule real_uint_mono)

lemma to_double_exact: "uint n \<le> 2 ^ 53 \<Longrightarrow> to_double n = real_of_int (uint n)"
  unfolding to_double_def by (rule round_double_of_int) (rule uint_ge_0)

lemma int64_to_double_pos: "0 < k \<Longrightarrow> 0 < int64_to_double k"
  unfolding int64_to_double_def by (rule round_double_pos) simp

lemma int64_to_double_exact:
  "0 \<le> k \<Longrightarrow> k \<le> 2 ^ 53 \<Longrightarrow> int64_to_double k = real_of_int k"
  unfolding int64_to_double_def by (rule round_double_of_int)

lemma round_double_100: "round_double 100 = 100"
  using round_double_of_int [of 100] by simp

subsection \<open>percentage\<close>

lemma percentage_zero_total: "total_m tr = 0 \<Longrightarrow> percentage tr = Inr 0"
  by (simp add: percentage_def)

lemma percentage_nonzero_total:
  "total_m tr \<noteq> 0 \<Longrightarrow>
   percentage tr =
     Inr (min (round_double (dmul 100 (to_double (current_m tr)) / to_double (total_m tr))) 100)"
  by (simp add: percentage_def ddiv_def to_double_eq_0_iff)

lemma percentage_range: "\<exists>p. percentage tr = Inr p \<and> 0 \<le> p \<and> p \<le> 100"
proof (cases "total_m tr = 0")
  case True
  then show ?thesis by (simp add: percentage_zero_total)
next
  case False
  have "0 \<le> dmul 100 (to_double (current_m tr))"
    unfolding dmul_def using to_double_nonneg by (intro round_double_nonneg) simp
  then have "0 \<le> dmul 100 (to_double (current_m tr)) / to_double (total_m tr)"
    using to_double_nonneg by simp
  then have "0 \<le> round_double (dmul 100 (to_double (current_m tr)) / to_double (total_m tr))"
    by (rule round_double_nonneg)
  then show ?thesis
    using False by (simp add: percentage_nonzero_total)
qed

text \<open>
  At or past a nonzero total the quotient of the two doubles is at least
  \<open>100 * (1 - 2\<^sup>-\<^sup>5\<^sup>3)\<close>, because the product \<open>100 * c\<close> is rounded before it is divided;
  the double next below 100 is \<open>100 - 2\<^sup>-\<^sup>4\<^sup>6\<close>.
\<close>

lemma percentage_overshoot:
  assumes t: "total_m tr \<noteq> 0" and le: "total_m tr \<le> current_m tr"
  shows "\<exists>p. percentage tr = Inr p \<and> 100 - 1 / 2 ^ 46 \<le> p \<and> p \<le> 100"
proof -
  define T where "T = to_double (total_m tr)"
  define C where "C = to_double (current_m tr)"
  define A where "A = dmul 100 C"
  have T: "0 < T" unfolding T_def using t by (rule to_double_pos)
  have TC: "T \<le> C" unfolding T_def C_def using le by (rule to_double_mono)
  have "round_double (100 * T) \<le> A"
    unfolding A_def dmul_def using T TC by (intro round_double_mono) simp_all
  moreover have "100 * T * (1 - 1 / 2 ^ 53) \<le> round_double (100 * T)"
    using T by (intro round_double_rel) simp
  ultimately have "100 * T * (1 - 1 / 2 ^ 53) \<le> A" by linarith
  then have "(100 - 1 / 2 ^ 46) * T \<le> A"
  proof -
    have "(100 - 1 / 2 ^ 46) * T \<le> 100 * (1 - 1 / 2 ^ 53) * T"
      using T by (intro mult_right_mono) simp_all
    then show ?thesis using \<open>100 * T * (1 - 1 / 2 ^ 53) \<le> A\<close> by (simp add: mult.commute mult.left_commute)
  qed
  then have q: "100 - 1 / 2 ^ 46 \<le> A / T"
    using T by (simp add: pos_le_divide_eq)
  have ex: "round_double (100 - 1 / 2 ^ 46) = 100 - 1 / 2 ^ 46"
  proof -
    have "round_double (of_int 7036874417766399 * 2 powi (- 46))
            = of_int 7036874417766399 * 2 powi (- 46)"
      by (rule round_double_exact) simp_all
    moreover have "real_of_int 7036874417766399 * 2 powi (- 46) = 100 - 1 / 2 ^ 46"
      by (simp add: power_int_minus field_simps)
    ultimately show ?thesis by simp
  qed
  have "round_double (100 - 1 / 2 ^ 46) \<le> round_double (A / T)"
    using q by (intro round_double_mono) simp_all
  then have "100 - 1 / 2 ^ 46 \<le> round_double (A / T)"
    unfolding ex .
  then show ?thesis
    using t by (simp add: percentage_nonzero_total A_def C_def T_def)
qed

lemma percentage_overshoot_exact:
  assumes t: "total_m tr \<noteq> 0" and le: "total_m tr \<le> current_m tr"
    and small: "100 * uint (current_m tr) \<le> 2 ^ 53"
  shows "percentage tr = Inr 100"
proof -
  have c53: "uint (current_m tr) \<le> 2 ^ 53"
    using small uint_ge_0 [of "current_m tr"] by linarith
  have t53: "uint (total_m tr) \<le> 2 ^ 53"
    using c53 le by (simp add: word_le_def)
  have C: "to_double (current_m tr) = real_of_int (uint (current_m tr))"
    using c53 by (rule to_double_exact)
  have T: "to_double (total_m tr) = real_of_int (uint (total_m tr))"
    using t53 by (rule to_double_exact)
  have "round_double (real_of_int (100 * uint (current_m tr))) = real_of_int (100 * uint (current_m tr))"
    using small by (intro round_double_of_int) simp_all
  then have A: "dmul 100 (to_double (current_m tr)) = 100 * real_of_int (uint (current_m tr))"
    by (simp add: dmul_def C)
  have pos: "0 < real_of_int (uint (total_m tr))"
    using to_double_pos [OF t] unfolding T .
  have "real_of_int (uint (total_m tr)) \<le> real_of_int (uint (current_m tr))"
    using le by (rule real_uint_mono)
  then have "100 \<le> 100 * real_of_int (uint (current_m tr)) / real_of_int (uint (total_m tr))"
    using pos by (simp add: pos_le_divide_eq)
  then have "round_double 100
      \<le> round_double (100 * real_of_int (uint (current_m tr)) / real_of_int (uint (total_m tr)))"
    by (intro round_double_mono) simp_all
  then show ?thesis
    using t by (simp add: percentage_nonzero_total A T round_double_100)
qed

text \<open>The result is within a relative error of \<open>2\<^sup>-\<^sup>5\<^sup>0\<close> of the exact value.\<close>

lemma percentage_error:
  assumes t: "total_m tr \<noteq> 0"
  shows "\<exists>p. percentage tr = Inr p
           \<and> \<bar>p - min (100 * real_of_int (uint (current_m tr)) / real_of_int (uint (total_m tr))) 100\<bar>
               \<le> min (100 * real_of_int (uint (current_m tr)) / real_of_int (uint (total_m tr))) 100
                    / 2 ^ 50"
proof -
  define P where "P = real_of_int (uint (current_m tr))"
  define T where "T = real_of_int (uint (total_m tr))"
  define q where "q = round_double (round_double (100 * round_double P) / round_double T)"
  have P: "0 \<le> P" unfolding P_def by (rule real_uint_nonneg)
  have T: "0 < T" unfolding T_def using t by (rule real_uint_pos)
  have e: "\<bar>q - 100 * P / T\<bar> \<le> 100 * P / T / 2 ^ 50"
    unfolding q_def using _ P T by (rule scaled_quotient_error) simp
  have p: "percentage tr = Inr (min q 100)"
    using t by (simp add: percentage_nonzero_total q_def dmul_def to_double_def P_def T_def)
  have Q0: "0 \<le> 100 * P / T" using P T by simp
  have "\<bar>min q 100 - min (100 * P / T) 100\<bar> \<le> min (100 * P / T) 100 / 2 ^ 50"
  proof (cases "100 * P / T \<le> 100")
    case True
    then have m: "min (100 * P / T) 100 = 100 * P / T" by simp
    show ?thesis
    proof (cases "q \<le> 100")
      case True
      then show ?thesis using e m by simp
    next
      case False
      then have "\<bar>100 - 100 * P / T\<bar> \<le> \<bar>q - 100 * P / T\<bar>"
        using True by simp
      then show ?thesis using e m False by simp
    qed
  next
    case False
    then have m: "min (100 * P / T) 100 = 100" by simp
    define Q where "Q = 100 * P / T"
    have Q: "100 < Q" using False by (simp add: Q_def)
    have "Q - Q / 2 ^ 50 \<le> q" using e unfolding Q_def [symmetric] by linarith
    moreover have "100 - 100 / 2 ^ 50 \<le> Q - Q / 2 ^ 50"
    proof -
      have "100 * (1 - 1 / 2 ^ 50) \<le> Q * (1 - 1 / 2 ^ 50)"
        using Q by (intro mult_right_mono) simp_all
      then show ?thesis by (simp add: algebra_simps)
    qed
    ultimately have "100 - 100 / 2 ^ 50 \<le> q" by linarith
    then have "\<bar>min q 100 - 100\<bar> \<le> 100 / 2 ^ 50"
      by (simp add: min_def)
    then show ?thesis unfolding m .
  qed
  then show ?thesis
    using p by (simp add: P_def T_def)
qed

text \<open>
  Claim C2 as stated fails: with a total of 1853686717818431315 and a counter one
  above it, the counter exceeds the total and \<^verbatim>\<open>percentage()\<close> is
  \<open>100 - 2\<^sup>-\<^sup>4\<^sup>6\<close>, the double next below 100. Both counters convert to the same double
  \<open>d\<close>, the product \<open>100 * d\<close> is rounded down, and the quotient by \<open>d\<close> falls below 100.
\<close>

theorem C2_counterexample:
  "total_m (advance 1853686717818431316 5000 (progress_tracker_init 1853686717818431315 0))
     < current_m (advance 1853686717818431316 5000 (progress_tracker_init 1853686717818431315 0))
   \<and> percentage (advance 1853686717818431316 5000 (progress_tracker_init 1853686717818431315 0))
       = Inr (7036874417766399 / 70368744177664)
   \<and> (7036874417766399 / 70368744177664 :: real) < 100"
  by code_simp

text \<open>
  Claim C2, amended. For every pair of counters \<^verbatim>\<open>percentage()\<close> is a number (no
  fault) between 0 and 100: it is 0 when the total is zero, and otherwise the smaller of
  100 and the quotient \<open>100 * current / total\<close> evaluated in doubles (the counters
  converted, the product rounded, the quotient rounded), which is within a relative
  error of \<open>2\<^sup>-\<^sup>5\<^sup>0\<close> of \<open>min (100 * current / total) 100\<close>. When the counter has reached
  or passed a nonzero total the result is at least \<open>100 - 2\<^sup>-\<^sup>4\<^sup>6\<close>, and it is exactly 100
  when \<open>100 * current\<close> is at most \<open>2\<^sup>5\<^sup>3\<close>.
\<close>

theorem C2_percentage:
  "percentage tr =
     Inr (if total_m tr = 0 then 0
          else min (round_double (dmul 100 (to_double (current_m tr)) / to_double (total_m tr))) 100)
   \<and> (\<exists>p. percentage tr = Inr p \<and> 0 \<le> p \<and> p \<le> 100)
   \<and> (total_m tr = 0 \<longrightarrow> percentage tr = Inr 0)
   \<and> (total_m tr \<noteq> 0 \<longrightarrow>
        (\<exists>p. percentage tr = Inr p
           \<and> \<bar>p - min (100 * real_of_int (uint (current_m tr)) / real_of_int (uint (total_m tr))) 100\<bar>
               \<le> min (100 * real_of_int (uint (current_m tr)) / real_of_int (uint (total_m tr))) 100
                    / 2 ^ 50))
   \<and> (total_m tr \<noteq> 0 \<and> total_m tr \<le> current_m tr \<longrightarrow>
        (\<exists>p. percentage tr = Inr p \<and> 100 - 1 / 2 ^ 46 \<le> p \<and> p \<le> 100))
   \<and> (total_m tr \<noteq> 0 \<and> total_m tr \<le> current_m tr \<and> 100 * uint (current_m tr) \<le> 2 ^ 53 \<longrightarrow>
        percentage tr = Inr 100)"
proof -
  have a: "percentage tr =
     Inr (if total_m tr = 0 then 0
          else min (round_double (dmul 100 (to_double (current_m tr)) / to_double (total_m tr))) 100)"
    by (simp add: percentage_zero_total percentage_nonzero_total)
  have b: "\<exists>p. percentage tr = Inr p \<and> 0 \<le> p \<and> p \<le> 100"
    by (rule percentage_range)
  have c: "total_m tr = 0 \<longrightarrow> percentage tr = Inr 0"
    by (simp add: percentage_zero_total)
  have d: "total_m tr \<noteq> 0 \<longrightarrow>
        (\<exists>p. percentage tr = Inr p
           \<and> \<bar>p - min (100 * real_of_int (uint (current_m tr)) / real_of_int (uint (total_m tr))) 100\<bar>
               \<le> min (100 * real_of_int (uint (current_m tr)) / real_of_int (uint (total_m tr))) 100
                    / 2 ^ 50)"
    using percentage_error [of tr] by blast
  have e: "total_m tr \<noteq> 0 \<and> total_m tr \<le> current_m tr \<longrightarrow>
        (\<exists>p. percentage tr = Inr p \<and> 100 - 1 / 2 ^ 46 \<le> p \<and> p \<le> 100)"
    using percentage_overshoot [of tr] by blast
  have f: "total_m tr \<noteq> 0 \<and> total_m tr \<le> current_m tr \<and> 100 * uint (current_m tr) \<le> 2 ^ 53 \<longrightarrow>
        percentage tr = Inr 100"
    using percentage_overshoot_exact [of tr] by blast
  show ?thesis
    using a b c d e f by (intro conjI)
qed

lemmas advance_unfold =
  advance_def fetch_add_current_def fetch_add_history_index_def
  store_progress_def store_timestamp_def progress_tracker_init_def Let_def

theorem C2_percentage_witness:
  "percentage (advance 3 5000 (progress_tracker_init 0 0)) = Inr 0
   \<and> percentage (advance 3 5000 (progress_tracker_init 2 0)) = Inr 100
   \<and> percentage (advance 1 5000 (progress_tracker_init 4 0)) = Inr 25
   \<and> percentage (advance 1 5000 (progress_tracker_init 3 0))
       = Inr (4691249611844267 / 140737488355328)"
proof -
  let ?T0 = "advance 3 5000 (progress_tracker_init 0 0)"
  let ?T2 = "advance 3 5000 (progress_tracker_init 2 0)"
  let ?T4 = "advance 1 5000 (progress_tracker_init 4 0)"
  let ?T3 = "advance 1 5000 (progress_tracker_init 3 0)"
  have t0: "total_m ?T0 = 0"
    by (simp add: advance_unfold)
  have t2: "total_m ?T2 \<noteq> 0 \<and> total_m ?T2 \<le> current_m ?T2 \<and> 100 * uint (current_m ?T2) \<le> 2 ^ 53"
    by (simp add: advance_unfold)
  have t4: "(if total_m ?T4 = 0 then 0
             else min (round_double (dmul 100 (to_double (current_m ?T4)) / to_double (total_m ?T4))) 100)
            = 25"
    by code_simp
  have t3: "(if total_m ?T3 = 0 then 0
             else min (round_double (dmul 100 (to_double (current_m ?T3)) / to_double (total_m ?T3))) 100)
            = 4691249611844267 / 140737488355328"
    by code_simp
  have p0: "percentage ?T0 = Inr 0"
    using C2_percentage [of ?T0] t0 by blast
  have p2: "percentage ?T2 = Inr 100"
    using C2_percentage [of ?T2] t2 by blast
  have p4: "percentage ?T4 = Inr 25"
    using C2_percentage [of ?T4] unfolding t4 by blast
  have p3: "percentage ?T3 = Inr (4691249611844267 / 140737488355328)"
    using C2_percentage [of ?T3] unfolding t3 by blast
  show ?thesis
    using p0 p2 p4 p3 by (intro conjI)
qed

subsection \<open>The rate estimator\<close>

lemma arg_min_list_snoc:
  fixes f :: "'a \<Rightarrow> int"
  shows "xs \<noteq> [] \<Longrightarrow>
   arg_min_list f (xs @ [x]) = (let m = arg_min_list f xs in if f x < f m then x else m)"
proof (induction f xs rule: arg_min_list.induct)
  case (1 f a)
  then show ?case by (auto simp: Let_def)
next
  case (2 f a y zs)
  then show ?case by (auto simp: Let_def)
next
  case (3 f)
  then show ?case by simp
qed

lemma valid_samples_0: "valid_samples h 0 = []"
  by (simp add: valid_samples_def)

lemma valid_samples_Suc:
  "k < length h \<Longrightarrow>
   valid_samples h (Suc k) = valid_samples h k @ (if 0 < timestamp (h ! k) then [h ! k] else [])"
  by (simp add: valid_samples_def take_Suc_conv_app_nth)

lemma scan_history_0: "scan_history h 0 = scan_init"
  by (simp add: scan_history_def)

lemma scan_history_Suc: "scan_history h (Suc k) = scan_step h k (scan_history h k)"
  by (simp add: scan_history_def)

lemma scan_step_inv:
  assumes inv: "scan_inv h k s" and k: "k < length h"
    and bound: "timestamp (h ! k) \<le> INT64_MAX"
  shows "scan_inv h (Suc k) (scan_step h k s)"
proof (cases "0 < timestamp (h ! k)")
  case False
  then have "valid_samples h (Suc k) = valid_samples h k" and "scan_step h k s = s"
    using k by (simp_all add: valid_samples_Suc scan_step_def)
  then show ?thesis
    using inv by (auto simp: scan_inv_def Let_def less_Suc_eq)
next
  case True
  show ?thesis
  proof (cases "valid_samples h k = []")
    case Nil: True
    then have s: "s = scan_init" using inv by (simp add: scan_inv_def)
    have vs: "valid_samples h (Suc k) = [h ! k]"
      using k True Nil by (simp add: valid_samples_Suc)
    show ?thesis
      using True bound
      by (auto simp: scan_inv_def vs s scan_step_def scan_init_def Let_def
          newest_sample_def oldest_sample_def)
  next
    case False
    have vs: "valid_samples h (Suc k) = valid_samples h k @ [h ! k]"
      using k True by (simp add: valid_samples_Suc)
    show ?thesis
      using inv True bound False
      by (auto simp: scan_inv_def vs scan_step_def Let_def arg_min_list_snoc
          newest_sample_def oldest_sample_def less_Suc_eq)
  qed
qed

lemma scan_history_inv:
  "k \<le> length h \<Longrightarrow> \<forall>i<k. timestamp (h ! i) \<le> INT64_MAX \<Longrightarrow> scan_inv h k (scan_history h k)"
proof (induction k)
  case 0
  show ?case by (simp add: scan_inv_def valid_samples_0 scan_history_0)
next
  case (Suc k)
  then have "scan_inv h k (scan_history h k)" by simp
  then show ?case
    unfolding scan_history_Suc using Suc.prems by (intro scan_step_inv) simp_all
qed

lemma newest_ge_oldest:
  assumes "vs \<noteq> []"
  shows "timestamp (oldest_sample vs) \<le> timestamp (newest_sample vs)"
proof -
  have "oldest_sample vs \<in> set vs"
    using assms by (simp add: oldest_sample_def arg_min_list_in)
  then have "Min ((\<lambda>e. - timestamp e) ` set vs) \<le> - timestamp (oldest_sample vs)"
    by (intro Min_le) auto
  moreover have "- timestamp (newest_sample vs) = Min ((\<lambda>e. - timestamp e) ` set vs)"
    unfolding newest_sample_def using assms by (rule f_arg_min_list_f)
  ultimately show ?thesis by simp
qed

lemma newest_sample_in: "vs \<noteq> [] \<Longrightarrow> newest_sample vs \<in> set vs"
  by (simp add: newest_sample_def arg_min_list_in)

lemma valid_samples_subset: "set (valid_samples h k) \<subseteq> set (take k h)"
  by (auto simp: valid_samples_def)

lemma single_sample_same:
  "length vs = 1 \<Longrightarrow> newest_sample vs = oldest_sample vs"
  by (cases vs) (simp_all add: newest_sample_def oldest_sample_def)

lemma estimate_code_alt:
  "estimate_code h k =
     (let vs = valid_samples h k in
      if vs = [] then 0
      else if timestamp (newest_sample vs) = timestamp (oldest_sample vs) then 0
      else double_rate (progress (newest_sample vs) - progress (oldest_sample vs))
             (timestamp (newest_sample vs) - timestamp (oldest_sample vs)))"
proof -
  consider "valid_samples h k = []" | "length (valid_samples h k) = 1"
    | "2 \<le> length (valid_samples h k)"
    by (cases "valid_samples h k") (auto simp: Suc_le_eq)
  then show ?thesis
  proof cases
    case 1
    then show ?thesis by (simp add: estimate_code_def)
  next
    case 2
    then have "valid_samples h k \<noteq> []" by auto
    then show ?thesis
      using 2 single_sample_same [OF 2] by (simp add: estimate_code_def)
  next
    case 3
    then have "valid_samples h k \<noteq> []" by auto
    then show ?thesis
      using 3 by (simp add: estimate_code_def Let_def)
  qed
qed

lemma ddiv_time_diff:
  "0 < time_diff \<Longrightarrow>
   ddiv (dmul 1000000 (to_double progress_diff)) (int64_to_double time_diff)
     = Inr (double_rate progress_diff time_diff)"
  using int64_to_double_pos [of time_diff] by (simp add: ddiv_def double_rate_def)

lemma double_rate_nonneg: "0 < time_diff \<Longrightarrow> 0 \<le> double_rate progress_diff time_diff"
proof -
  assume "0 < time_diff"
  then have "0 < int64_to_double time_diff" by (rule int64_to_double_pos)
  moreover have "0 \<le> dmul 1000000 (to_double progress_diff)"
    unfolding dmul_def using to_double_nonneg by (intro round_double_nonneg) simp
  ultimately show ?thesis
    unfolding double_rate_def by (intro round_double_nonneg) simp
qed

lemma scan_rate_refines:
  assumes k: "k \<le> length h" and bound: "\<forall>i<k. timestamp (h ! i) \<le> INT64_MAX"
  shows "(let s = scan_history h k in
          if newest_time s > oldest_time s \<and> newest_idx s \<noteq> oldest_idx s then
            let progress_diff = progress (h ! newest_idx s) - progress (h ! oldest_idx s);
                time_diff = newest_time s - oldest_time s
            in if time_diff > 0
               then ddiv (dmul 1000000 (to_double progress_diff)) (int64_to_double time_diff)
               else Inr 0
          else Inr 0) = Inr (estimate_code h k)"
proof (cases "valid_samples h k = []")
  case True
  then have "scan_history h k = scan_init"
    using scan_history_inv [OF k bound] by (simp add: scan_inv_def)
  then show ?thesis
    using True by (simp add: estimate_code_alt scan_init_def INT64_MAX_def)
next
  case False
  define s where "s = scan_history h k"
  define vs where "vs = valid_samples h k"
  have inv: "newest_time s = timestamp (newest_sample vs)"
    "newest_idx s < k" "h ! newest_idx s = newest_sample vs"
    "oldest_time s = timestamp (oldest_sample vs)"
    "oldest_time s < INT64_MAX \<longrightarrow> oldest_idx s < k \<and> h ! oldest_idx s = oldest_sample vs"
    using scan_history_inv [OF k bound] False
    by (simp_all add: scan_inv_def Let_def s_def vs_def)
  have ge: "oldest_time s \<le> newest_time s"
    using newest_ge_oldest False by (simp add: inv vs_def)
  have "newest_sample vs \<in> set (take k h)"
    using newest_sample_in valid_samples_subset False unfolding vs_def by blast
  then obtain i where "i < k" "h ! i = newest_sample vs"
    using k by (auto simp: in_set_conv_nth)
  then have le: "newest_time s \<le> INT64_MAX"
    using bound inv(1) by metis
  show ?thesis
  proof (cases "oldest_time s < newest_time s")
    case True
    then have "oldest_time s < INT64_MAX" using le by simp
    then have o: "h ! oldest_idx s = oldest_sample vs" using inv(5) by simp
    have ne: "newest_idx s \<noteq> oldest_idx s"
      using True inv(1,3,4) o by auto
    have td: "0 < timestamp (newest_sample vs) - timestamp (oldest_sample vs)"
      using True inv(1,4) by simp
    show ?thesis
      using True ne o inv(1,3,4) False ddiv_time_diff [OF td]
      by (simp add: estimate_code_alt Let_def s_def [symmetric] vs_def [symmetric])
  next
    case False
    then have "newest_time s = oldest_time s" using ge by simp
    then show ?thesis
      using inv(1,4) \<open>valid_samples h k \<noteq> []\<close>
      by (simp add: estimate_code_alt Let_def s_def [symmetric] vs_def [symmetric])
  qed
qed

lemma recompute_rate_refines:
  assumes "tracker_wf tr" and "\<forall>e\<in>set (history_m tr). timestamp e \<le> INT64_MAX"
  shows "recompute_rate tr =
         Inr (estimate_code (history_m tr) (min HISTORY_SIZE (unat (history_index_m tr))))"
proof -
  have k: "min HISTORY_SIZE (unat (history_index_m tr)) \<le> length (history_m tr)"
    using assms(1) by (simp add: tracker_wf_def)
  have b: "\<forall>i<min HISTORY_SIZE (unat (history_index_m tr)). timestamp (history_m tr ! i) \<le> INT64_MAX"
    using assms k by (metis nth_mem order_less_le_trans)
  show ?thesis
    unfolding recompute_rate_def
    using scan_rate_refines [OF k b] by (simp only: Let_def)
qed

lemma recompute_rate_no_fault: "\<exists>r. recompute_rate tr = Inr r \<and> 0 \<le> r"
  by (simp add: recompute_rate_def Let_def ddiv_time_diff double_rate_nonneg)

text \<open>
  Without a wrap of the \<^verbatim>\<open>std::size_t\<close> difference, the doubles of the code follow the
  exact quotient within a relative error of \<open>2\<^sup>-\<^sup>5\<^sup>0\<close>, and give its rounding when the
  product \<open>10\<^sup>6 * progress_diff\<close> and the time difference are at most \<open>2\<^sup>5\<^sup>3\<close>.
\<close>

lemma uint_diff_no_wrap:
  fixes a b :: size_t
  assumes "a \<le> b"
  shows "real_of_int (uint (b - a)) = real_of_int (uint b) - real_of_int (uint a)"
proof -
  have "uint (b - a) = uint b - uint a"
    using assms by (simp add: uint_sub_if' word_le_def)
  then show ?thesis
    by (simp only: of_int_diff)
qed

lemma double_rate_error:
  assumes "0 < time_diff"
  shows "\<bar>double_rate progress_diff time_diff
            - 1000000 * real_of_int (uint progress_diff) / real_of_int time_diff\<bar>
         \<le> 1000000 * real_of_int (uint progress_diff) / real_of_int time_diff / 2 ^ 50"
proof -
  have T: "0 < real_of_int time_diff" using assms by simp
  have K: "(0::real) < 1000000" by simp
  show ?thesis
    unfolding double_rate_def dmul_def to_double_def int64_to_double_def
    using K real_uint_nonneg T by (rule scaled_quotient_error)
qed

lemma double_rate_exact:
  assumes p: "1000000 * uint progress_diff \<le> 2 ^ 53"
    and t: "0 < time_diff" "time_diff \<le> 2 ^ 53"
  shows "double_rate progress_diff time_diff
         = round_double (1000000 * real_of_int (uint progress_diff) / real_of_int time_diff)"
proof -
  have "uint progress_diff \<le> 2 ^ 53"
    using p uint_ge_0 [of progress_diff] by linarith
  then have P: "to_double progress_diff = real_of_int (uint progress_diff)"
    by (rule to_double_exact)
  have T: "int64_to_double time_diff = real_of_int time_diff"
    using t by (intro int64_to_double_exact) simp_all
  have "0 \<le> 1000000 * uint progress_diff"
    using uint_ge_0 [of progress_diff] by linarith
  then have "round_double (real_of_int (1000000 * uint progress_diff))
               = real_of_int (1000000 * uint progress_diff)"
    using p by (rule round_double_of_int)
  then have A: "dmul 1000000 (to_double progress_diff) = 1000000 * real_of_int (uint progress_diff)"
    unfolding dmul_def P by (simp only: of_int_mult of_int_numeral)
  show ?thesis
    unfolding double_rate_def A T ..
qed

lemma estimate_spec_few: "length (valid_samples h k) < 2 \<Longrightarrow> estimate_spec h k = 0"
  by (simp add: estimate_spec_def)

lemma estimate_code_few: "length (valid_samples h k) < 2 \<Longrightarrow> estimate_code h k = 0"
  by (simp add: estimate_code_def)

lemma estimate_spec_no_time:
  "timestamp (newest_sample (valid_samples h k)) - timestamp (oldest_sample (valid_samples h k)) = 0
   \<Longrightarrow> estimate_spec h k = 0"
  by (simp add: estimate_spec_def Let_def)

lemma estimate_code_no_time:
  "timestamp (newest_sample (valid_samples h k)) - timestamp (oldest_sample (valid_samples h k)) = 0
   \<Longrightarrow> estimate_code h k = 0"
  by (simp add: estimate_code_def Let_def)

lemma estimate_code_error:
  assumes "progress (oldest_sample (valid_samples h k)) \<le> progress (newest_sample (valid_samples h k))"
  shows "\<bar>estimate_code h k - estimate_spec h k\<bar> \<le> estimate_spec h k / 2 ^ 50"
proof -
  define vs where "vs = valid_samples h k"
  define td where "td = timestamp (newest_sample vs) - timestamp (oldest_sample vs)"
  show ?thesis
  proof (cases "length vs < 2 \<or> td = 0")
    case True
    then have "estimate_code h k = 0" "estimate_spec h k = 0"
      unfolding vs_def td_def
      using estimate_code_few estimate_code_no_time estimate_spec_few estimate_spec_no_time
      by blast+
    then show ?thesis by simp
  next
    case False
    then have "vs \<noteq> []" by auto
    then have "0 \<le> td" unfolding td_def using newest_ge_oldest by simp
    then have td: "0 < td" using False by simp
    have c: "estimate_code h k
             = double_rate (progress (newest_sample vs) - progress (oldest_sample vs)) td"
      using False by (simp add: estimate_code_def Let_def vs_def [symmetric] td_def)
    have s: "estimate_spec h k
             = 1000000 * real_of_int (uint (progress (newest_sample vs) - progress (oldest_sample vs)))
                 / real_of_int td"
      using False uint_diff_no_wrap [OF assms]
      by (simp add: estimate_spec_def Let_def vs_def [symmetric] td_def)
    show ?thesis
      unfolding c s using td by (rule double_rate_error)
  qed
qed

lemma estimate_code_exact:
  assumes le: "progress (oldest_sample (valid_samples h k)) \<le> progress (newest_sample (valid_samples h k))"
    and p: "1000000 * (uint (progress (newest_sample (valid_samples h k)))
                        - uint (progress (oldest_sample (valid_samples h k)))) \<le> 2 ^ 53"
    and t: "timestamp (newest_sample (valid_samples h k))
              - timestamp (oldest_sample (valid_samples h k)) \<le> 2 ^ 53"
  shows "estimate_code h k = round_double (estimate_spec h k)"
proof -
  define vs where "vs = valid_samples h k"
  define td where "td = timestamp (newest_sample vs) - timestamp (oldest_sample vs)"
  show ?thesis
  proof (cases "length vs < 2 \<or> td = 0")
    case True
    then have "estimate_code h k = 0" "estimate_spec h k = 0"
      unfolding vs_def td_def
      using estimate_code_few estimate_code_no_time estimate_spec_few estimate_spec_no_time
      by blast+
    then show ?thesis by (simp add: round_double_zero)
  next
    case False
    then have "vs \<noteq> []" by auto
    then have "0 \<le> td" unfolding td_def using newest_ge_oldest by simp
    then have td: "0 < td" using False by simp
    have td53: "td \<le> 2 ^ 53" using t by (simp add: td_def vs_def)
    have u: "uint (progress (newest_sample vs) - progress (oldest_sample vs))
             = uint (progress (newest_sample vs)) - uint (progress (oldest_sample vs))"
      using le by (simp add: uint_sub_if' word_le_def vs_def)
    have p': "1000000 * uint (progress (newest_sample vs) - progress (oldest_sample vs)) \<le> 2 ^ 53"
      unfolding u using p by (simp add: vs_def)
    have c: "estimate_code h k
             = double_rate (progress (newest_sample vs) - progress (oldest_sample vs)) td"
      using False by (simp add: estimate_code_def Let_def vs_def [symmetric] td_def)
    have s: "estimate_spec h k
             = 1000000 * real_of_int (uint (progress (newest_sample vs) - progress (oldest_sample vs)))
                 / real_of_int td"
      using False uint_diff_no_wrap [OF le]
      by (simp add: estimate_spec_def Let_def vs_def [symmetric] td_def)
    show ?thesis
      unfolding c s using p' td td53 by (rule double_rate_exact)
  qed
qed

text \<open>
  Claim C6 as stated fails. Two threads call \<^verbatim>\<open>advance(1)\<close> on a fresh tracker: the
  first adds to the counter (new value 1), the second adds (new value 2), takes slot 0
  and writes its sample at one second, then the first takes slot 1 and writes its sample
  at two seconds. The oldest sample has progress 2 and the newest progress 1: the
  estimate of the specification is \<open>(1 - 2) / 1 s = -1\<close> per second, and \<^verbatim>\<open>get_rate\<close>,
  which subtracts in \<^verbatim>\<open>std::size_t\<close>, returns \<open>2\<^sup>6\<^sup>4\<close> per second.
\<close>

theorem C6_counterexample:
  "list_all thread_done (threads (run False
      [(0, 0, False), (0, 0, False), (1, 0, False), (1, 0, False), (1, 0, False),
       (1, 1000000000, False), (1, 0, False), (1, 0, False), (1, 0, False),
       (0, 0, False), (0, 2000000000, False), (0, 0, False), (0, 0, False), (0, 0, False)]
      \<lparr>shared_bar = fst (progress_bar_init False 10 None 0 []), dispatched = [],
       threads = [\<lparr>pc = Idle, pending = [Advance 1]\<rparr>, \<lparr>pc = Idle, pending = [Advance 1]\<rparr>]\<rparr>))
   \<and> map_option (\<lambda>tr. take 2 (history_m tr)) (tracker_m (shared_bar (run False
      [(0, 0, False), (0, 0, False), (1, 0, False), (1, 0, False), (1, 0, False),
       (1, 1000000000, False), (1, 0, False), (1, 0, False), (1, 0, False),
       (0, 0, False), (0, 2000000000, False), (0, 0, False), (0, 0, False), (0, 0, False)]
      \<lparr>shared_bar = fst (progress_bar_init False 10 None 0 []), dispatched = [],
       threads = [\<lparr>pc = Idle, pending = [Advance 1]\<rparr>, \<lparr>pc = Idle, pending = [Advance 1]\<rparr>]\<rparr>)))
     = Some [\<lparr>progress = 2, timestamp = 1000000\<rparr>, \<lparr>progress = 1, timestamp = 2000000\<rparr>]
   \<and> map_option (\<lambda>tr. fst (get_rate 2500000000 tr)) (tracker_m (shared_bar (run False
      [(0, 0, False), (0, 0, False), (1, 0, False), (1, 0, False), (1, 0, False),
       (1, 1000000000, False), (1, 0, False), (1, 0, False), (1, 0, False),
       (0, 0, False), (0, 2000000000, False), (0, 0, False), (0, 0, False), (0, 0, False)]
      \<lparr>shared_bar = fst (progress_bar_init False 10 None 0 []), dispatched = [],
       threads = [\<lparr>pc = Idle, pending = [Advance 1]\<rparr>, \<lparr>pc = Idle, pending = [Advance 1]\<rparr>]\<rparr>)))
     = Some (Inr 18446744073709551616)
   \<and> map_option (\<lambda>tr. estimate_spec (history_m tr) (min HISTORY_SIZE (unat (history_index_m tr))))
       (tracker_m (shared_bar (run False
      [(0, 0, False), (0, 0, False), (1, 0, False), (1, 0, False), (1, 0, False),
       (1, 1000000000, False), (1, 0, False), (1, 0, False), (1, 0, False),
       (0, 0, False), (0, 2000000000, False), (0, 0, False), (0, 0, False), (0, 0, False)]
      \<lparr>shared_bar = fst (progress_bar_init False 10 None 0 []), dispatched = [],
       threads = [\<lparr>pc = Idle, pending = [Advance 1]\<rparr>, \<lparr>pc = Idle, pending = [Advance 1]\<rparr>]\<rparr>)))
     = Some (- 1)"
  by code_simp

text \<open>
  Claim C6, amended. When \<^verbatim>\<open>get_rate\<close> recomputes (the cache is at least 100 ms old),
  it scans the first \<open>min HISTORY_SIZE history_index\<close> slots and selects, among the
  samples with a timestamp above zero, the first of minimum timestamp (oldest) and the
  first of maximum timestamp (newest); it returns 0 with fewer than two valid samples
  and with no time between the two, and otherwise \<open>10\<^sup>6\<close> times the progress between them
  over the microseconds between them, with the difference of the progress values taken
  in \<^verbatim>\<open>std::size_t\<close> and the product and quotient in doubles (\<open>estimate_code\<close>).
  Whenever the progress of the newest sample is not below that of the oldest, this is
  within a relative error of \<open>2\<^sup>-\<^sup>5\<^sup>0\<close> of the estimate of the specification, and it is
  that estimate rounded to a double when \<open>10\<^sup>6\<close> times the progress difference and the
  time difference are at most \<open>2\<^sup>5\<^sup>3\<close>. The timestamps are \<^verbatim>\<open>int64_t\<close> values, hence at
  most \<open>INT64_MAX\<close>.
\<close>

theorem C6_rate_estimate:
  assumes "tracker_wf tr" and "\<forall>e\<in>set (history_m tr). timestamp e \<le> INT64_MAX"
  shows "recompute_rate tr =
           Inr (estimate_code (history_m tr) (min HISTORY_SIZE (unat (history_index_m tr))))
       \<and> (\<not> to_milliseconds (now - last_update (cache_m tr)) < 100 \<longrightarrow>
            fst (get_rate now tr) =
              Inr (estimate_code (history_m tr) (min HISTORY_SIZE (unat (history_index_m tr)))))
       \<and> (length (valid_samples (history_m tr) (min HISTORY_SIZE (unat (history_index_m tr)))) < 2
            \<longrightarrow> recompute_rate tr = Inr 0)
       \<and> (timestamp (newest_sample (valid_samples (history_m tr)
                         (min HISTORY_SIZE (unat (history_index_m tr)))))
          - timestamp (oldest_sample (valid_samples (history_m tr)
                         (min HISTORY_SIZE (unat (history_index_m tr))))) = 0
            \<longrightarrow> recompute_rate tr = Inr 0)
       \<and> (progress (oldest_sample (valid_samples (history_m tr)
                         (min HISTORY_SIZE (unat (history_index_m tr)))))
          \<le> progress (newest_sample (valid_samples (history_m tr)
                         (min HISTORY_SIZE (unat (history_index_m tr)))))
            \<longrightarrow> (\<exists>r. recompute_rate tr = Inr r
                   \<and> \<bar>r - estimate_spec (history_m tr) (min HISTORY_SIZE (unat (history_index_m tr)))\<bar>
                       \<le> estimate_spec (history_m tr) (min HISTORY_SIZE (unat (history_index_m tr)))
                            / 2 ^ 50))
       \<and> (progress (oldest_sample (valid_samples (history_m tr)
                         (min HISTORY_SIZE (unat (history_index_m tr)))))
          \<le> progress (newest_sample (valid_samples (history_m tr)
                         (min HISTORY_SIZE (unat (history_index_m tr)))))
          \<and> 1000000 * (uint (progress (newest_sample (valid_samples (history_m tr)
                                   (min HISTORY_SIZE (unat (history_index_m tr))))))
                        - uint (progress (oldest_sample (valid_samples (history_m tr)
                                   (min HISTORY_SIZE (unat (history_index_m tr))))))) \<le> 2 ^ 53
          \<and> timestamp (newest_sample (valid_samples (history_m tr)
                         (min HISTORY_SIZE (unat (history_index_m tr)))))
            - timestamp (oldest_sample (valid_samples (history_m tr)
                         (min HISTORY_SIZE (unat (history_index_m tr))))) \<le> 2 ^ 53
            \<longrightarrow> recompute_rate tr =
                  Inr (round_double (estimate_spec (history_m tr)
                                      (min HISTORY_SIZE (unat (history_index_m tr))))))"
proof -
  let ?h = "history_m tr"
  let ?k = "min HISTORY_SIZE (unat (history_index_m tr))"
  let ?vs = "valid_samples ?h ?k"
  have r: "recompute_rate tr = Inr (estimate_code ?h ?k)"
    using assms by (rule recompute_rate_refines)
  have g: "\<not> to_milliseconds (now - last_update (cache_m tr)) < 100 \<longrightarrow>
           fst (get_rate now tr) = Inr (estimate_code ?h ?k)"
    by (simp add: get_rate_def r)
  have few: "length ?vs < 2 \<longrightarrow> recompute_rate tr = Inr 0"
    unfolding r using estimate_code_few [of ?h ?k] by simp
  have zero: "timestamp (newest_sample ?vs) - timestamp (oldest_sample ?vs) = 0
          \<longrightarrow> recompute_rate tr = Inr 0"
    unfolding r using estimate_code_no_time [of ?h ?k] by simp
  have err: "progress (oldest_sample ?vs) \<le> progress (newest_sample ?vs)
            \<longrightarrow> (\<exists>r. recompute_rate tr = Inr r
                   \<and> \<bar>r - estimate_spec ?h ?k\<bar> \<le> estimate_spec ?h ?k / 2 ^ 50)"
    unfolding r using estimate_code_error [of ?h ?k] by simp
  have exact: "progress (oldest_sample ?vs) \<le> progress (newest_sample ?vs)
          \<and> 1000000 * (uint (progress (newest_sample ?vs)) - uint (progress (oldest_sample ?vs)))
              \<le> 2 ^ 53
          \<and> timestamp (newest_sample ?vs) - timestamp (oldest_sample ?vs) \<le> 2 ^ 53
            \<longrightarrow> recompute_rate tr = Inr (round_double (estimate_spec ?h ?k))"
    unfolding r using estimate_code_exact [of ?h ?k] by simp
  show ?thesis
    using r g few zero err exact by (intro conjI)
qed

theorem C6_rate_estimate_witness:
  "tracker_wf (advance 6 2000000000 (advance 5 1000000000 (progress_tracker_init 10 0)))
   \<and> list_all (\<lambda>e. timestamp e \<le> INT64_MAX)
         (history_m (advance 6 2000000000 (advance 5 1000000000 (progress_tracker_init 10 0))))
   \<and> \<not> to_milliseconds (2500000000 - last_update (cache_m
           (advance 6 2000000000 (advance 5 1000000000 (progress_tracker_init 10 0))))) < 100
   \<and> fst (get_rate 2500000000
           (advance 6 2000000000 (advance 5 1000000000 (progress_tracker_init 10 0)))) = Inr 6
   \<and> length (valid_samples (history_m (advance 5 1000000000 (progress_tracker_init 10 0)))
        (min HISTORY_SIZE (unat (history_index_m (advance 5 1000000000 (progress_tracker_init 10 0)))))) < 2
   \<and> recompute_rate (advance 5 1000000000 (progress_tracker_init 10 0)) = Inr 0
   \<and> estimate_spec (history_m (advance 1 4000000000 (advance 1 1000000000 (progress_tracker_init 10 0))))
        (min HISTORY_SIZE (unat (history_index_m
           (advance 1 4000000000 (advance 1 1000000000 (progress_tracker_init 10 0)))))) = 1 / 3
   \<and> recompute_rate (advance 1 4000000000 (advance 1 1000000000 (progress_tracker_init 10 0)))
       = Inr (6004799503160661 / 18014398509481984)"
proof -
  let ?T1 = "advance 5 1000000000 (progress_tracker_init 10 0)"
  let ?T2 = "advance 6 2000000000 ?T1"
  let ?T3 = "advance 1 4000000000 (advance 1 1000000000 (progress_tracker_init 10 0))"
  let ?k2 = "min HISTORY_SIZE (unat (history_index_m ?T2))"
  let ?k3 = "min HISTORY_SIZE (unat (history_index_m ?T3))"
  have wf2: "tracker_wf ?T2" by code_simp
  have b2: "\<forall>e\<in>set (history_m ?T2). timestamp e \<le> INT64_MAX" by code_simp
  have st: "\<not> to_milliseconds (2500000000 - last_update (cache_m ?T2)) < 100" by code_simp
  have e2: "estimate_code (history_m ?T2) ?k2 = 6"
    by code_simp
  have wf1: "tracker_wf ?T1" by code_simp
  have b1: "\<forall>e\<in>set (history_m ?T1). timestamp e \<le> INT64_MAX" by code_simp
  have l1: "length (valid_samples (history_m ?T1) (min HISTORY_SIZE (unat (history_index_m ?T1)))) < 2"
    by code_simp
  have wf3: "tracker_wf ?T3" by code_simp
  have b3: "\<forall>e\<in>set (history_m ?T3). timestamp e \<le> INT64_MAX" by code_simp
  have h3: "progress (oldest_sample (valid_samples (history_m ?T3) ?k3))
          \<le> progress (newest_sample (valid_samples (history_m ?T3) ?k3))
          \<and> 1000000 * (uint (progress (newest_sample (valid_samples (history_m ?T3) ?k3)))
                        - uint (progress (oldest_sample (valid_samples (history_m ?T3) ?k3)))) \<le> 2 ^ 53
          \<and> timestamp (newest_sample (valid_samples (history_m ?T3) ?k3))
            - timestamp (oldest_sample (valid_samples (history_m ?T3) ?k3)) \<le> 2 ^ 53"
    by code_simp
  have e3: "estimate_spec (history_m ?T3) ?k3 = 1 / 3"
    by code_simp
  have r3: "round_double (1 / 3) = 6004799503160661 / 18014398509481984"
    by code_simp
  have g2: "fst (get_rate 2500000000 ?T2) = Inr 6"
    using C6_rate_estimate [OF wf2 b2, of 2500000000] st unfolding e2 by blast
  have r1: "recompute_rate ?T1 = Inr 0"
    using C6_rate_estimate [OF wf1 b1, of 0] l1 by blast
  have "recompute_rate ?T3 = Inr (round_double (estimate_spec (history_m ?T3) ?k3))"
    using C6_rate_estimate [OF wf3 b3, of 0] h3 by blast
  then have g3: "recompute_rate ?T3 = Inr (6004799503160661 / 18014398509481984)"
    unfolding e3 r3 .
  have b2': "list_all (\<lambda>e. timestamp e \<le> INT64_MAX) (history_m ?T2)"
    using b2 by (simp only: list_all_iff)
  show ?thesis
    using wf2 b2' st g2 l1 r1 e3 g3 by (intro conjI)
qed

subsection \<open>eta\<close>

lemma get_rate_frame:
  assumes "get_rate now tr = (res, tr')"
  shows "total_m tr' = total_m tr \<and> current_m tr' = current_m tr
         \<and> history_m tr' = history_m tr \<and> history_index_m tr' = history_index_m tr
         \<and> (\<exists>r. res = Inr r)"
proof -
  obtain r where r: "recompute_rate tr = Inr r"
    using recompute_rate_no_fault by blast
  show ?thesis
    using assms by (auto simp: get_rate_def r split: if_splits)
qed

lemma eta_char:
  assumes "get_rate now tr = (Inr r, tr')"
  shows "eta now tr =
           (if r \<le> 0 then Inr 0
            else double_to_int64
                   (dmul (round_double (to_double (total_m tr - current_m tr) / r)) 1000), tr')"
  using assms get_rate_frame [OF assms] by (simp add: eta_def ddiv_def)





lemma double_to_int64_small: "0 \<le> x \<Longrightarrow> x < 1 \<Longrightarrow> double_to_int64 x = Inr 0"
  by (simp add: double_to_int64_def trunc_def INT64_MIN_def INT64_MAX_def floor_eq_iff)

lemma double_to_int64_floor:
  assumes "0 \<le> x" and "x < 2 ^ 63"
  shows "double_to_int64 x = Inr \<lfloor>x\<rfloor>" and "0 \<le> \<lfloor>x\<rfloor>"
proof -
  have "\<lfloor>x\<rfloor> < 2 ^ 63" using assms(2) by (simp add: floor_less_iff)
  moreover show "0 \<le> \<lfloor>x\<rfloor>" using assms(1) by simp
  ultimately show "double_to_int64 x = Inr \<lfloor>x\<rfloor>"
    using assms(1) by (simp add: double_to_int64_def trunc_def INT64_MIN_def INT64_MAX_def)
qed

lemma double_to_int64_overflow:
  assumes "2 ^ 63 \<le> x"
  shows "double_to_int64 x = Inl Conversion_out_of_range"
proof -
  have "2 ^ 63 \<le> \<lfloor>x\<rfloor>" using assms by (simp add: le_floor_iff)
  moreover have "0 \<le> x" using assms by (rule order_trans [rotated]) simp
  ultimately show ?thesis
    by (simp add: double_to_int64_def trunc_def INT64_MIN_def INT64_MAX_def)
qed

lemma remaining_wraps:
  fixes t c :: size_t
  assumes "t < c"
  shows "uint (t - c) = 2 ^ 64 - (uint c - uint t)"
  using assms by (simp add: uint_sub_if' word_less_def)


lemma eta_millis_pos:
  assumes "0 < r" and "n \<noteq> 0"
  shows "0 < dmul (round_double (to_double n / r)) 1000"
proof -
  have "0 < to_double n / r" using assms to_double_pos by simp
  then have "0 < round_double (to_double n / r)" by (rule round_double_pos)
  then show ?thesis
    unfolding dmul_def by (intro round_double_pos) simp
qed

lemma eta_millis_error:
  assumes r: "0 < r"
  shows "\<bar>dmul (round_double (to_double n / r)) 1000 - real_of_int (uint n) / r * 1000\<bar>
         \<le> real_of_int (uint n) / r * 1000 / 2 ^ 51"
proof (cases "n = 0")
  case True
  then show ?thesis by (simp add: to_double_def dmul_def round_double_zero)
next
  case False
  define eps :: real where "eps = 1 / 2 ^ 53"
  define N where "N = real_of_int (uint n)"
  define a where "a = round_double N"
  define b where "b = round_double (a / r)"
  define c where "c = round_double (b * 1000)"
  define Q where "Q = N / r * 1000"
  have eps: "0 < eps" "eps < 1" by (simp_all add: eps_def)
  have up: "(1 + eps) * (1 + eps) * (1 + eps) \<le> 1 + 1 / 2 ^ 51"
    by (simp add: eps_def)
  have lo: "1 - 1 / 2 ^ 51 \<le> (1 - eps) * (1 - eps) * (1 - eps)"
    by (simp add: eps_def)
  have N: "0 < N" unfolding N_def using False by (rule real_uint_pos)
  have a0: "0 < a" unfolding a_def using N by (rule round_double_pos)
  have ar: "0 < a / r" using a0 r by simp
  have b0: "0 < b" unfolding b_def using ar by (rule round_double_pos)
  have b1: "0 < b * 1000" using b0 by simp
  have Q0: "0 < Q" unfolding Q_def using N r by simp
  note ra = round_double_rel [OF N, folded a_def eps_def]
  note rb = round_double_rel [OF ar, folded b_def eps_def]
  note rc = round_double_rel [OF b1, folded c_def eps_def]
  have b_hi: "b \<le> N / r * ((1 + eps) * (1 + eps))"
  proof -
    have "a / r \<le> N * (1 + eps) / r" using ra(2) r by (intro divide_right_mono) simp_all
    then have "a / r * (1 + eps) \<le> N * (1 + eps) / r * (1 + eps)"
      using eps by (intro mult_right_mono) simp_all
    moreover have "N * (1 + eps) / r * (1 + eps) = N / r * ((1 + eps) * (1 + eps))"
      by simp
    ultimately show ?thesis using rb(2) by linarith
  qed
  have b_lo: "N / r * ((1 - eps) * (1 - eps)) \<le> b"
  proof -
    have "N * (1 - eps) / r \<le> a / r" using ra(1) r by (intro divide_right_mono) simp_all
    then have "N * (1 - eps) / r * (1 - eps) \<le> a / r * (1 - eps)"
      using eps by (intro mult_right_mono) simp_all
    moreover have "N * (1 - eps) / r * (1 - eps) = N / r * ((1 - eps) * (1 - eps))"
      by simp
    ultimately show ?thesis using rb(1) by linarith
  qed
  have c_hi: "c \<le> Q * (1 + 1 / 2 ^ 51)"
  proof -
    have "b * 1000 * (1 + eps) \<le> N / r * ((1 + eps) * (1 + eps)) * 1000 * (1 + eps)"
      using b_hi eps by (intro mult_right_mono) simp_all
    then have "c \<le> N / r * ((1 + eps) * (1 + eps)) * 1000 * (1 + eps)"
      using rc(2) by linarith
    also have "\<dots> = Q * ((1 + eps) * (1 + eps) * (1 + eps))"
      by (simp add: Q_def)
    also have "\<dots> \<le> Q * (1 + 1 / 2 ^ 51)"
      using up Q0 by (intro mult_left_mono) simp_all
    finally show ?thesis .
  qed
  have c_lo: "Q * (1 - 1 / 2 ^ 51) \<le> c"
  proof -
    have "Q * (1 - 1 / 2 ^ 51) \<le> Q * ((1 - eps) * (1 - eps) * (1 - eps))"
      using lo Q0 by (intro mult_left_mono) simp_all
    also have "\<dots> = N / r * ((1 - eps) * (1 - eps)) * 1000 * (1 - eps)"
      by (simp add: Q_def)
    also have "\<dots> \<le> b * 1000 * (1 - eps)"
      using b_lo eps by (intro mult_right_mono) simp_all
    also have "\<dots> \<le> c" using rc(1) .
    finally show ?thesis .
  qed
  have "\<bar>c - Q\<bar> \<le> Q / 2 ^ 51"
  proof -
    define d :: real where "d = Q / 2 ^ 51"
    have "Q * (1 + 1 / 2 ^ 51) = Q + d" "Q * (1 - 1 / 2 ^ 51) = Q - d"
      by (simp_all add: d_def algebra_simps)
    then have "c \<le> Q + d" "Q - d \<le> c" using c_hi c_lo by simp_all
    then have "\<bar>c - Q\<bar> \<le> d" by linarith
    then show ?thesis by (simp add: d_def)
  qed
  then show ?thesis
    unfolding c_def b_def a_def Q_def N_def dmul_def to_double_def .
qed




text \<open>
  Claim C10 as stated fails: with total 0, one unit recorded at 1 microsecond and
  \<open>2\<^sup>6\<^sup>3\<close> more at 2 microseconds, the counter exceeds the total, the rate is positive,
  and \<^verbatim>\<open>eta()\<close> is zero milliseconds.
\<close>

theorem C10_counterexample:
  "total_m (advance (2 ^ 63) 2000 (advance 1 1000 (progress_tracker_init 0 0)))
     < current_m (advance (2 ^ 63) 2000 (advance 1 1000 (progress_tracker_init 0 0)))
   \<and> fst (get_rate 200000000 (advance (2 ^ 63) 2000 (advance 1 1000 (progress_tracker_init 0 0))))
       = Inr 9223372036854775808000000
   \<and> fst (eta 200000000 (advance (2 ^ 63) 2000 (advance 1 1000 (progress_tracker_init 0 0))))
       = Inr 0"
  by code_simp

text \<open>
  Claim C10, amended. \<^verbatim>\<open>eta()\<close> subtracts without a clamp: when the counter exceeds the
  total, the remaining work wraps to \<open>2\<^sup>6\<^sup>4 - (current - total)\<close>, which is positive. With
  a positive rate \<open>r\<close> the result is the conversion to \<^verbatim>\<open>int64_t\<close> of the double \<open>x\<close>
  obtained from the wrapped difference (converted to a double) divided by \<open>r\<close> and
  multiplied by 1000, each operation rounded; \<open>x\<close> is positive and within a relative
  error of \<open>2\<^sup>-\<^sup>5\<^sup>1\<close> of \<open>(2\<^sup>6\<^sup>4 - (current - total)) / r * 1000\<close>. The result is zero
  milliseconds when \<open>x < 1\<close>, the whole part of \<open>x\<close>, at least one millisecond, when
  \<open>1 \<le> x < 2\<^sup>6\<^sup>3\<close>, and out of the range of \<^verbatim>\<open>int64_t\<close> (a conversion without a defined
  result) when \<open>2\<^sup>6\<^sup>3 \<le> x\<close>.
\<close>

theorem C10_eta_overshoot:
  assumes over: "total_m tr < current_m tr"
    and gr: "get_rate now tr = (Inr r, tr')" and pos: "0 < r"
  shows "uint (total_m tr - current_m tr) = 2 ^ 64 - (uint (current_m tr) - uint (total_m tr))
     \<and> 0 < uint (total_m tr - current_m tr)
     \<and> fst (eta now tr) =
         double_to_int64 (dmul (round_double (to_double (total_m tr - current_m tr) / r)) 1000)
     \<and> 0 < dmul (round_double (to_double (total_m tr - current_m tr) / r)) 1000
     \<and> \<bar>dmul (round_double (to_double (total_m tr - current_m tr) / r)) 1000
          - real_of_int (2 ^ 64 - (uint (current_m tr) - uint (total_m tr))) / r * 1000\<bar>
         \<le> real_of_int (2 ^ 64 - (uint (current_m tr) - uint (total_m tr))) / r * 1000 / 2 ^ 51
     \<and> (dmul (round_double (to_double (total_m tr - current_m tr) / r)) 1000 < 1
          \<longrightarrow> fst (eta now tr) = Inr 0)
     \<and> (1 \<le> dmul (round_double (to_double (total_m tr - current_m tr) / r)) 1000
        \<and> dmul (round_double (to_double (total_m tr - current_m tr) / r)) 1000 < 2 ^ 63
          \<longrightarrow> fst (eta now tr)
                = Inr \<lfloor>dmul (round_double (to_double (total_m tr - current_m tr) / r)) 1000\<rfloor>
              \<and> 1 \<le> \<lfloor>dmul (round_double (to_double (total_m tr - current_m tr) / r)) 1000\<rfloor>)
     \<and> (2 ^ 63 \<le> dmul (round_double (to_double (total_m tr - current_m tr) / r)) 1000
          \<longrightarrow> fst (eta now tr) = Inl Conversion_out_of_range)"
proof -
  let ?rem = "2 ^ 64 - (uint (current_m tr) - uint (total_m tr))"
  let ?x = "dmul (round_double (to_double (total_m tr - current_m tr) / r)) 1000"
  have w: "uint (total_m tr - current_m tr) = ?rem"
    using over by (rule remaining_wraps)
  have p: "0 < uint (total_m tr - current_m tr)"
  proof -
    have "uint (current_m tr) < 2 ^ 64"
      using uint_lt2p [of "current_m tr"] by simp
    moreover have "0 \<le> uint (total_m tr)"
      by (rule uint_ge_0)
    ultimately show ?thesis
      unfolding w by linarith
  qed
  have ne: "total_m tr - current_m tr \<noteq> 0"
    using p by auto
  have e: "fst (eta now tr) = double_to_int64 ?x"
    using eta_char [OF gr] pos by simp
  have xp: "0 < ?x"
    using pos ne by (rule eta_millis_pos)
  have er: "\<bar>?x - real_of_int ?rem / r * 1000\<bar> \<le> real_of_int ?rem / r * 1000 / 2 ^ 51"
    using eta_millis_error [OF pos, of "total_m tr - current_m tr"] unfolding w .
  have s: "?x < 1 \<longrightarrow> fst (eta now tr) = Inr 0"
    using xp e double_to_int64_small [of ?x] by simp
  have f: "1 \<le> ?x \<and> ?x < 2 ^ 63 \<longrightarrow> fst (eta now tr) = Inr \<lfloor>?x\<rfloor> \<and> 1 \<le> \<lfloor>?x\<rfloor>"
    using xp e double_to_int64_floor(1) [of ?x] by (simp add: le_floor_iff)
  have o: "2 ^ 63 \<le> ?x \<longrightarrow> fst (eta now tr) = Inl Conversion_out_of_range"
    using e double_to_int64_overflow [of ?x] by simp
  show ?thesis
    using w p e xp er s f o by (intro conjI)
qed

theorem C10_eta_overshoot_witness:
  "total_m (advance 6 2000000000 (advance 5 1000000000 (progress_tracker_init 10 0)))
     < current_m (advance 6 2000000000 (advance 5 1000000000 (progress_tracker_init 10 0)))
   \<and> fst (get_rate 2500000000
         (advance 6 2000000000 (advance 5 1000000000 (progress_tracker_init 10 0)))) = Inr 6
   \<and> fst (eta 2500000000
         (advance 6 2000000000 (advance 5 1000000000 (progress_tracker_init 10 0))))
       = Inl Conversion_out_of_range
   \<and> total_m (advance 4000 2000000000 (advance 7000 1000000000 (progress_tracker_init 10 0)))
     < current_m (advance 4000 2000000000 (advance 7000 1000000000 (progress_tracker_init 10 0)))
   \<and> fst (get_rate 2500000000
         (advance 4000 2000000000 (advance 7000 1000000000 (progress_tracker_init 10 0)))) = Inr 4000
   \<and> fst (eta 2500000000
         (advance 4000 2000000000 (advance 7000 1000000000 (progress_tracker_init 10 0))))
       = Inr 4611686018427384832
   \<and> total_m (advance 2000 2000000000 (advance (2 ^ 64 - 1999) 1000000000 (progress_tracker_init 0 0)))
     < current_m (advance 2000 2000000000 (advance (2 ^ 64 - 1999) 1000000000 (progress_tracker_init 0 0)))
   \<and> fst (get_rate 2500000000
         (advance 2000 2000000000 (advance (2 ^ 64 - 1999) 1000000000 (progress_tracker_init 0 0))))
       = Inr 2000
   \<and> fst (eta 2500000000
         (advance 2000 2000000000 (advance (2 ^ 64 - 1999) 1000000000 (progress_tracker_init 0 0))))
       = Inl Conversion_out_of_range"
proof -
  let ?T = "advance 6 2000000000 (advance 5 1000000000 (progress_tracker_init 10 0))"
  let ?U = "advance 4000 2000000000 (advance 7000 1000000000 (progress_tracker_init 10 0))"
  have o: "total_m ?T < current_m ?T" by code_simp
  have g: "fst (get_rate 2500000000 ?T) = Inr 6" by code_simp
  then have gp: "get_rate 2500000000 ?T = (Inr 6, snd (get_rate 2500000000 ?T))"
    by (metis prod.collapse)
  have x: "2 ^ 63 \<le> dmul (round_double (to_double (total_m ?T - current_m ?T) / 6)) 1000"
    by code_simp
  have p: "(0::real) < 6" by simp
  have e: "fst (eta 2500000000 ?T) = Inl Conversion_out_of_range"
    using C10_eta_overshoot [OF o gp p] x by blast
  have o': "total_m ?U < current_m ?U" by code_simp
  have g': "fst (get_rate 2500000000 ?U) = Inr 4000" by code_simp
  then have gp': "get_rate 2500000000 ?U = (Inr 4000, snd (get_rate 2500000000 ?U))"
    by (metis prod.collapse)
  have x': "dmul (round_double (to_double (total_m ?U - current_m ?U) / 4000)) 1000
            = 4611686018427384832"
    by code_simp
  have p': "(0::real) < 4000" by simp
  have r': "(1::real) \<le> 4611686018427384832 \<and> (4611686018427384832::real) < 2 ^ 63"
    by simp
  have fl: "\<lfloor>4611686018427384832::real\<rfloor> = 4611686018427384832"
    by simp
  have "1 \<le> dmul (round_double (to_double (total_m ?U - current_m ?U) / 4000)) 1000
        \<and> dmul (round_double (to_double (total_m ?U - current_m ?U) / 4000)) 1000 < 2 ^ 63
          \<longrightarrow> fst (eta 2500000000 ?U)
                = Inr \<lfloor>dmul (round_double (to_double (total_m ?U - current_m ?U) / 4000)) 1000\<rfloor>"
    using C10_eta_overshoot [OF o' gp' p'] by blast
  then have e': "fst (eta 2500000000 ?U) = Inr 4611686018427384832"
    unfolding x' fl using r' by blast
  let ?V = "advance 2000 2000000000 (advance (2 ^ 64 - 1999) 1000000000 (progress_tracker_init 0 0))"
  have o'': "total_m ?V < current_m ?V" by code_simp
  have g'': "fst (get_rate 2500000000 ?V) = Inr 2000" by code_simp
  then have gp'': "get_rate 2500000000 ?V = (Inr 2000, snd (get_rate 2500000000 ?V))"
    by (metis prod.collapse)
  have x'': "2 ^ 63 \<le> dmul (round_double (to_double (total_m ?V - current_m ?V) / 2000)) 1000"
    by code_simp
  have p'': "(0::real) < 2000" by simp
  have e'': "fst (eta 2500000000 ?V) = Inl Conversion_out_of_range"
    using C10_eta_overshoot [OF o'' gp'' p''] x'' by blast
  show ?thesis
    using o g e o' g' e' o'' g'' e'' by (intro conjI)
qed

subsection \<open>The bar, one caller\<close>

lemma finish_active:
  assumes "\<not> finished_m b" and "tracker_m b = Some tr" and "display_m b = Some d"
  shows "finish tty (b, out) =
           (b\<lparr>finished_m := True\<rparr>, if tty then out @ [Finish d tr] else out)"
  using assms by (simp add: finish_def cas_finished_def dispatch_finish_def)

lemma finish_finished: "finished_m b \<Longrightarrow> finish tty (b, out) = (b, out)"
  by (simp add: finish_def cas_finished_def)

lemma finish_sets_flag: "finished_m (fst (finish tty (b, out)))"
  by (simp add: finish_def cas_finished_def dispatch_finish_def
      split: option.splits)

lemma finish_idem: "finish tty (finish tty s) = finish tty s"
proof (cases s)
  case (Pair b out)
  obtain b' out' where r: "finish tty (b, out) = (b', out')"
    by (cases "finish tty (b, out)")
  then have "finished_m b'"
    using finish_sets_flag [of tty b out] by simp
  then show ?thesis
    using r Pair by (simp add: finish_finished)
qed

lemma finish_funpow: "(finish tty ^^ Suc n) s = finish tty s"
  by (induction n) (simp_all add: finish_idem)

lemma finish_count:
  "length (filter is_Finish (snd (finish tty (b, out))))
     = length (filter is_Finish out)
       + (if \<not> finished_m b \<and> tty \<and> tracker_m b \<noteq> None \<and> display_m b \<noteq> None then 1 else 0)"
  by (auto simp: finish_def cas_finished_def dispatch_finish_def split: option.splits)

lemma destroy_active:
  assumes "\<not> finished_m b" and "tracker_m b = Some tr" and "display_m b = Some d"
  shows "destroy tty (b, out) =
           (if tty then (b\<lparr>finished_m := True\<rparr>, out @ [Finish d tr]) else (b, out))"
  using assms by (simp add: destroy_def finish_active)

lemma destroy_finished: "finished_m b \<Longrightarrow> destroy tty (b, out) = (b, out)"
  by (simp add: destroy_def)

lemma try_render_frame:
  assumes "try_render tty now spurious (b, out) = (b', out')"
  shows "finished_m b' = finished_m b \<and> tracker_m b' = tracker_m b \<and> display_m b' = display_m b
       \<and> filter is_Finish out' = filter is_Finish out"
  using assms
  by (auto simp: try_render_def cas_last_render_time_def dispatch_render_def Let_def
      split: if_splits option.splits)

lemma bar_advance_frame:
  assumes "bar_advance tty n t1 t2 spurious (b, out) = (b', out')"
  shows "finished_m b' = finished_m b \<and> (tracker_m b' = None \<longleftrightarrow> tracker_m b = None)
       \<and> display_m b' = display_m b \<and> filter is_Finish out' = filter is_Finish out"
proof -
  define b1 where "b1 = (case tracker_m b of None \<Rightarrow> b
                  | Some tr \<Rightarrow> b\<lparr>tracker_m := Some (advance n t1 tr)\<rparr>)"
  have "try_render tty t2 spurious (b1, out) = (b', out')"
    using assms by (simp add: bar_advance_def b1_def)
  from try_render_frame [OF this] show ?thesis
    by (auto simp: b1_def split: option.splits)
qed

lemma advances_frame:
  "advances tty cs (b, out) = (b', out') \<Longrightarrow>
   finished_m b' = finished_m b \<and> (tracker_m b' = None \<longleftrightarrow> tracker_m b = None)
       \<and> display_m b' = display_m b \<and> filter is_Finish out' = filter is_Finish out"
proof (induction cs arbitrary: b out)
  case Nil
  then show ?case by simp
next
  case (Cons c cs)
  obtain n t1 t2 sp where c: "c = (n, t1, t2, sp)" by (cases c)
  obtain b1 out1 where s1: "bar_advance tty n t1 t2 sp (b, out) = (b1, out1)"
    by (cases "bar_advance tty n t1 t2 sp (b, out)")
  have "advances tty cs (b1, out1) = (b', out')"
    using Cons.prems by (simp add: c s1)
  from Cons.IH [OF this] bar_advance_frame [OF s1] show ?case by simp
qed

lemma progress_bar_init_active:
  "\<exists>b out tr d. progress_bar_init tty t disp now [] = (b, out) \<and> \<not> finished_m b
      \<and> tracker_m b = Some tr \<and> display_m b = Some d \<and> filter is_Finish out = []"
  by (simp add: progress_bar_init_def Let_def)

lemma lifetime_finishes:
  "length (filter is_Finish
     (snd (destroy tty (advances tty cs (progress_bar_init tty t disp now [])))))
   = (if tty then 1 else 0)"
proof -
  obtain b0 out0 tr0 d where i: "progress_bar_init tty t disp now [] = (b0, out0)"
    "\<not> finished_m b0" "tracker_m b0 = Some tr0" "display_m b0 = Some d"
    "filter is_Finish out0 = []"
    using progress_bar_init_active by blast
  obtain b out where a: "advances tty cs (b0, out0) = (b, out)"
    by (cases "advances tty cs (b0, out0)")
  from advances_frame [OF a] i obtain tr where
    f: "\<not> finished_m b" "tracker_m b = Some tr" "display_m b = Some d"
      "filter is_Finish out = []"
    by auto
  show ?thesis
    by (simp add: i(1) a destroy_active [OF f(1-3)] f(4))
qed

lemma bar_ok_init: "bar_ok (fst (progress_bar_init tty t disp now out))"
  by (simp add: progress_bar_init_def Let_def bar_ok_def)

lemma bar_ok_active:
  "bar_ok b \<Longrightarrow> \<not> finished_m b \<Longrightarrow> \<exists>tr d. tracker_m b = Some tr \<and> display_m b = Some d"
  by (auto simp: bar_ok_def)

lemma bar_ok_bar_advance:
  assumes "bar_ok b"
  shows "bar_ok (fst (bar_advance tty n t1 t2 sp (b, out)))"
proof -
  obtain b' out' where r: "bar_advance tty n t1 t2 sp (b, out) = (b', out')"
    by (cases "bar_advance tty n t1 t2 sp (b, out)")
  from bar_advance_frame [OF r] assms show ?thesis
    by (auto simp: r bar_ok_def)
qed

lemma bar_ok_finish: "bar_ok (fst (finish tty (b, out)))"
  using finish_sets_flag [of tty b out] by (simp add: bar_ok_def)

lemma bar_ok_destroy: "bar_ok b \<Longrightarrow> bar_ok (fst (destroy tty (b, out)))"
  by (simp add: destroy_def bar_ok_finish)

lemma store_ok_move_construct: "store_ok h \<Longrightarrow> store_ok (move_construct dst src h)"
  by (auto simp: store_ok_def move_construct_def bar_ok_def split: option.splits if_splits)

lemma store_ok_move_assign: "store_ok h \<Longrightarrow> store_ok (move_assign dst src h)"
  by (auto simp: store_ok_def move_assign_def bar_ok_def split: option.splits if_splits)

subsection \<open>Teardown and moves\<close>

text \<open>
  Claim C4. A bar destroyed while still active (its finished flag unset; its tracker and
  display are then in place, by the invariant \<open>bar_ok\<close>) performs the transition of \<^verbatim>\<open>finish()\<close> when the output is
  interactive, dispatching one terminal \<^verbatim>\<open>finish\<close>, and does nothing when it is not.
  Over a whole lifetime (construction, any calls of \<^verbatim>\<open>advance\<close>, destruction without a
  call of \<^verbatim>\<open>finish\<close>) the terminal dispatches number exactly one under an interactive
  signal and zero otherwise.
\<close>

theorem C4_scoped_teardown:
  assumes "\<not> finished_m b" and "tracker_m b = Some tr" and "display_m b = Some d"
  shows "destroy True (b, out) = finish True (b, out)
       \<and> destroy True (b, out) = (b\<lparr>finished_m := True\<rparr>, out @ [Finish d tr])
       \<and> destroy False (b, out) = (b, out)
       \<and> length (filter is_Finish
            (snd (destroy tty (advances tty cs (progress_bar_init tty t disp now [])))))
          = (if tty then 1 else 0)"
proof -
  have a: "destroy True (b, out) = finish True (b, out)"
    using assms(1) by (simp add: destroy_def)
  have c: "destroy True (b, out) = (b\<lparr>finished_m := True\<rparr>, out @ [Finish d tr])"
    using destroy_active [OF assms, of True out] by simp
  have e: "destroy False (b, out) = (b, out)"
    by (simp add: destroy_def)
  show ?thesis
    using a c e lifetime_finishes [of tty cs t disp now] by blast
qed

theorem C4_scoped_teardown_witness:
  "length (filter is_Finish (snd (destroy True (progress_bar_init True 3 None 0 [])))) = 1
   \<and> length (filter is_Finish (snd (destroy False (progress_bar_init False 3 None 0 [])))) = 0
   \<and> finished_m (fst (destroy True (progress_bar_init True 3 None 0 [])))
   \<and> snd (destroy True (progress_bar_init True 3 None 0 []))
       = [Render Bar_display (progress_tracker_init 3 0), Finish Bar_display (progress_tracker_init 3 0)]"
proof -
  let ?b = "\<lparr>tracker_m = Some (progress_tracker_init 3 0), display_m = Some Bar_display,
             finished_m = False, last_render_time_m = 0\<rparr>"
  have i1: "progress_bar_init True 3 None 0 [] = (?b, [Render Bar_display (progress_tracker_init 3 0)])"
    by (simp add: progress_bar_init_def Let_def)
  have i2: "progress_bar_init False 3 None 0 [] = (?b, [])"
    by (simp add: progress_bar_init_def Let_def)
  have a: "\<not> finished_m ?b" "tracker_m ?b = Some (progress_tracker_init 3 0)"
    "display_m ?b = Some Bar_display"
    by simp_all
  have d1: "destroy True (?b, [Render Bar_display (progress_tracker_init 3 0)])
             = (?b\<lparr>finished_m := True\<rparr>,
                [Render Bar_display (progress_tracker_init 3 0)]
                  @ [Finish Bar_display (progress_tracker_init 3 0)])"
    using C4_scoped_teardown [OF a, of "[Render Bar_display (progress_tracker_init 3 0)]" True "[]" 0 None 0]
    by blast
  have d2: "destroy False (?b, []) = (?b, [])"
    using C4_scoped_teardown [OF a, of "[]" False "[]" 0 None 0] by blast
  show ?thesis
    unfolding i1 i2 d1 d2 by simp
qed

lemma destroy_at_finished:
  "h a = Some b \<Longrightarrow> finished_m b \<Longrightarrow> destroy_at tty a (h, out) = (h(a := None), out)"
  by (simp add: destroy_at_def destroy_finished)

lemma destroy_at_count:
  "h a = Some b \<Longrightarrow>
   length (filter is_Finish (snd (destroy_at tty a (h, out))))
     \<le> length (filter is_Finish out) + (if finished_m b then 0 else 1)"
  using finish_count [of tty b out]
  by (auto simp: destroy_at_def destroy_def)

lemma destroy_at_store:
  "h a = Some b \<Longrightarrow> fst (destroy_at tty a (h, out)) = h(a := None)"
  by (simp add: destroy_at_def)

lemma move_construct_result:
  assumes "h src = Some sb" and "dst \<noteq> src"
  shows "move_construct dst src h src
           = Some (sb\<lparr>tracker_m := None, display_m := None, finished_m := True\<rparr>)"
    and "move_construct dst src h dst
           = Some \<lparr>tracker_m = tracker_m sb, display_m = display_m sb,
                  finished_m = finished_m sb, last_render_time_m = last_render_time_m sb\<rparr>"
  using assms by (simp_all add: move_construct_def)

lemma move_assign_result:
  assumes "h src = Some sb" and "dst \<noteq> src" and "h dst = Some db"
  shows "move_assign dst src h src
           = Some (sb\<lparr>tracker_m := None, display_m := None, finished_m := True\<rparr>)"
    and "move_assign dst src h dst
           = Some (db\<lparr>tracker_m := tracker_m sb, display_m := display_m sb,
                  finished_m := finished_m sb, last_render_time_m := last_render_time_m sb\<rparr>)"
  using assms by (simp_all add: move_assign_def)

lemma moved_pair_destroyed:
  assumes s: "h' src = Some sb'" "finished_m sb'" and d: "h' dst = Some db'" and ne: "dst \<noteq> src"
  shows "destroy_at tty src (h', out) = (h'(src := None), out)"
    and "length (filter is_Finish (snd (destroy_at tty dst (destroy_at tty src (h', out)))))
           \<le> length (filter is_Finish out) + 1"
    and "length (filter is_Finish (snd (destroy_at tty src (destroy_at tty dst (h', out)))))
           \<le> length (filter is_Finish out) + 1"
proof -
  show a: "destroy_at tty src (h', out) = (h'(src := None), out)"
    using s by (rule destroy_at_finished)
  have "(h'(src := None)) dst = Some db'" using d ne by simp
  with destroy_at_count [of "h'(src := None)" dst db' tty out]
  show "length (filter is_Finish (snd (destroy_at tty dst (destroy_at tty src (h', out)))))
           \<le> length (filter is_Finish out) + 1"
    unfolding a by (simp split: if_splits)
  obtain h1 out1 where r: "destroy_at tty dst (h', out) = (h1, out1)"
    by (cases "destroy_at tty dst (h', out)")
  have h1: "h1 = h'(dst := None)"
    using destroy_at_store [of h' dst db' tty out] d r by simp
  have c1: "length (filter is_Finish out1) \<le> length (filter is_Finish out) + 1"
    using destroy_at_count [of h' dst db' tty out] d r by (simp split: if_splits)
  have "h1 src = Some sb'" using s(1) ne h1 by simp
  with destroy_at_finished [of h1 src sb' tty out1] s(2) c1
  show "length (filter is_Finish (snd (destroy_at tty src (destroy_at tty dst (h', out)))))
           \<le> length (filter is_Finish out) + 1"
    by (simp add: r)
qed

text \<open>
  Claim C8. After a move construction, or a move assignment between two different bars,
  the destination holds the tracker, the display and the finished flag of the source,
  and the source has null pointers and its finished flag set; the destructor of the
  source then dispatches nothing and changes nothing but the release of the source,
  and destroying both bars, in either order, dispatches at most one terminal
  \<^verbatim>\<open>finish\<close>.
\<close>

theorem C8_move_leaves_source_finished:
  assumes "h src = Some sb" and "dst \<noteq> src"
  shows "(let h' = move_construct dst src h in
            h' src = Some (sb\<lparr>tracker_m := None, display_m := None, finished_m := True\<rparr>)
          \<and> h' dst = Some \<lparr>tracker_m = tracker_m sb, display_m = display_m sb,
                           finished_m = finished_m sb,
                           last_render_time_m = last_render_time_m sb\<rparr>
          \<and> destroy_at tty src (h', out) = (h'(src := None), out)
          \<and> length (filter is_Finish (snd (destroy_at tty dst (destroy_at tty src (h', out)))))
               \<le> length (filter is_Finish out) + 1
          \<and> length (filter is_Finish (snd (destroy_at tty src (destroy_at tty dst (h', out)))))
               \<le> length (filter is_Finish out) + 1)
       \<and> (h dst = Some db \<longrightarrow>
           (let h' = move_assign dst src h in
              h' src = Some (sb\<lparr>tracker_m := None, display_m := None, finished_m := True\<rparr>)
            \<and> h' dst = Some (db\<lparr>tracker_m := tracker_m sb, display_m := display_m sb,
                                 finished_m := finished_m sb,
                                 last_render_time_m := last_render_time_m sb\<rparr>)
            \<and> destroy_at tty src (h', out) = (h'(src := None), out)
            \<and> length (filter is_Finish (snd (destroy_at tty dst (destroy_at tty src (h', out)))))
                 \<le> length (filter is_Finish out) + 1
            \<and> length (filter is_Finish (snd (destroy_at tty src (destroy_at tty dst (h', out)))))
                 \<le> length (filter is_Finish out) + 1))"
proof -
  let ?sb' = "sb\<lparr>tracker_m := None, display_m := None, finished_m := True\<rparr>"
  have fin: "finished_m ?sb'" by simp
  have c: "let h' = move_construct dst src h in
            h' src = Some ?sb'
          \<and> h' dst = Some \<lparr>tracker_m = tracker_m sb, display_m = display_m sb,
                           finished_m = finished_m sb,
                           last_render_time_m = last_render_time_m sb\<rparr>
          \<and> destroy_at tty src (h', out) = (h'(src := None), out)
          \<and> length (filter is_Finish (snd (destroy_at tty dst (destroy_at tty src (h', out)))))
               \<le> length (filter is_Finish out) + 1
          \<and> length (filter is_Finish (snd (destroy_at tty src (destroy_at tty dst (h', out)))))
               \<le> length (filter is_Finish out) + 1"
  proof -
    have r1: "move_construct dst src h src = Some ?sb'"
      by (rule move_construct_result(1)) (rule assms)+
    have r2: "move_construct dst src h dst
                = Some \<lparr>tracker_m = tracker_m sb, display_m = display_m sb,
                           finished_m = finished_m sb,
                           last_render_time_m = last_render_time_m sb\<rparr>"
      by (rule move_construct_result(2)) (rule assms)+
    show ?thesis
      unfolding Let_def
      using r1 r2 moved_pair_destroyed [where h' = "move_construct dst src h" and src = src
          and dst = dst and tty = tty and out = out, OF r1 fin r2 assms(2)]
      by blast
  qed
  have a: "h dst = Some db \<longrightarrow>
           (let h' = move_assign dst src h in
              h' src = Some ?sb'
            \<and> h' dst = Some (db\<lparr>tracker_m := tracker_m sb, display_m := display_m sb,
                                 finished_m := finished_m sb,
                                 last_render_time_m := last_render_time_m sb\<rparr>)
            \<and> destroy_at tty src (h', out) = (h'(src := None), out)
            \<and> length (filter is_Finish (snd (destroy_at tty dst (destroy_at tty src (h', out)))))
                 \<le> length (filter is_Finish out) + 1
            \<and> length (filter is_Finish (snd (destroy_at tty src (destroy_at tty dst (h', out)))))
                 \<le> length (filter is_Finish out) + 1)"
  proof
    assume d: "h dst = Some db"
    show "let h' = move_assign dst src h in
              h' src = Some ?sb'
            \<and> h' dst = Some (db\<lparr>tracker_m := tracker_m sb, display_m := display_m sb,
                                 finished_m := finished_m sb,
                                 last_render_time_m := last_render_time_m sb\<rparr>)
            \<and> destroy_at tty src (h', out) = (h'(src := None), out)
            \<and> length (filter is_Finish (snd (destroy_at tty dst (destroy_at tty src (h', out)))))
                 \<le> length (filter is_Finish out) + 1
            \<and> length (filter is_Finish (snd (destroy_at tty src (destroy_at tty dst (h', out)))))
                 \<le> length (filter is_Finish out) + 1"
    proof -
      have r1: "move_assign dst src h src = Some ?sb'"
        by (rule move_assign_result(1)) (rule assms d)+
      have r2: "move_assign dst src h dst
                  = Some (db\<lparr>tracker_m := tracker_m sb, display_m := display_m sb,
                                 finished_m := finished_m sb,
                                 last_render_time_m := last_render_time_m sb\<rparr>)"
        by (rule move_assign_result(2)) (rule assms d)+
      show ?thesis
        unfolding Let_def
        using r1 r2 moved_pair_destroyed [where h' = "move_assign dst src h" and src = src
            and dst = dst and tty = tty and out = out, OF r1 fin r2 assms(2)]
        by blast
    qed
  qed
  show ?thesis
    using c a by blast
qed

theorem C8_move_leaves_source_finished_witness:
  "finished_m (the (move_construct 1 0 [0 \<mapsto> fst (progress_bar_init True 3 None 0 [])] 0))
   \<and> tracker_m (the (move_construct 1 0 [0 \<mapsto> fst (progress_bar_init True 3 None 0 [])] 1))
       = Some (progress_tracker_init 3 0)
   \<and> snd (destroy_at True 0
        (move_construct 1 0 [0 \<mapsto> fst (progress_bar_init True 3 None 0 [])], [])) = []
   \<and> finished_m (the (move_assign 1 0
        [0 \<mapsto> fst (progress_bar_init True 3 None 0 []),
         1 \<mapsto> fst (progress_bar_init True 5 None 0 [])] 0))
   \<and> snd (destroy_at True 0
        (move_assign 1 0
          [0 \<mapsto> fst (progress_bar_init True 3 None 0 []),
           1 \<mapsto> fst (progress_bar_init True 5 None 0 [])], [])) = []"
proof -
  let ?b3 = "fst (progress_bar_init True 3 None 0 [])"
  let ?b5 = "fst (progress_bar_init True 5 None 0 [])"
  let ?h = "[0 \<mapsto> ?b3] :: store"
  let ?g = "[0 \<mapsto> ?b3, 1 \<mapsto> ?b5] :: store"
  have h0: "?h 0 = Some ?b3" by simp
  have g0: "?g 0 = Some ?b3" by simp
  have g1: "?g 1 = Some ?b5" by simp
  have ne: "(1::nat) \<noteq> 0" by simp
  have t: "tracker_m ?b3 = Some (progress_tracker_init 3 0)"
    by (simp add: progress_bar_init_def Let_def)
  note c = C8_move_leaves_source_finished [where h = ?h and src = 0 and dst = 1 and sb = ?b3
      and tty = True and out = "[]" and db = ?b5, OF h0 ne, unfolded Let_def]
  note a = C8_move_leaves_source_finished [where h = ?g and src = 0 and dst = 1 and sb = ?b3
      and tty = True and out = "[]" and db = ?b5, OF g0 ne, unfolded Let_def]
  have c1: "move_construct 1 0 ?h 0
              = Some (?b3\<lparr>tracker_m := None, display_m := None, finished_m := True\<rparr>)"
    using c by blast
  have c2: "move_construct 1 0 ?h 1
              = Some \<lparr>tracker_m = tracker_m ?b3, display_m = display_m ?b3,
                           finished_m = finished_m ?b3,
                           last_render_time_m = last_render_time_m ?b3\<rparr>"
    using c by blast
  have c3: "destroy_at True 0 (move_construct 1 0 ?h, []) = ((move_construct 1 0 ?h)(0 := None), [])"
    using c by blast
  have a1: "move_assign 1 0 ?g 0
              = Some (?b3\<lparr>tracker_m := None, display_m := None, finished_m := True\<rparr>)"
    using a g1 by blast
  have a3: "destroy_at True 0 (move_assign 1 0 ?g, []) = ((move_assign 1 0 ?g)(0 := None), [])"
    using a g1 by blast
  show ?thesis
    unfolding c1 c2 c3 a1 a3 by (simp add: t)
qed

subsection \<open>Threads: what one step does\<close>

lemma sum_list_map_update:
  fixes f :: "'a \<Rightarrow> 'b::comm_monoid_add"
  shows "i < length xs \<Longrightarrow>
         sum_list (map f (xs[i := y])) + f (xs ! i) = sum_list (map f xs) + f y"
proof (induction xs arbitrary: i)
  case Nil
  then show ?case by simp
next
  case (Cons x xs)
  show ?case
  proof (cases i)
    case 0
    then show ?thesis by (simp add: ac_simps)
  next
    case (Suc j)
    then have "j < length xs" using Cons.prems by simp
    from Cons.IH [OF this] show ?thesis
      using Suc by (simp add: ac_simps)
  qed
qed

lemma step_out_of_range: "\<not> tid < length (threads c) \<Longrightarrow> step tty (tid, now, sp) c = c"
  by (simp add: step_def)

lemma step_in_range:
  assumes "tid < length (threads c)"
    and "thread_step tty now sp (threads c ! tid) (shared_bar c) (dispatched c) = (t', b', out')"
  shows "step tty (tid, now, sp) c
           = \<lparr>shared_bar = b', dispatched = out', threads = (threads c)[tid := t']\<rparr>"
  using assms by (simp add: step_def)

text \<open>Conservation of the increments, one step of one thread.\<close>

lemma thread_step_owed:
  assumes "thread_step tty now sp t b out = (t', b', out')" and "tracker_m b = Some tr"
  shows "\<exists>tr'. tracker_m b' = Some tr'
           \<and> current_m tr' + owed_thread t' = current_m tr + owed_thread t"
proof (cases "pc t")
  case Idle
  then show ?thesis
    using assms
    by (cases "pending t"; cases "hd (pending t)")
      (auto simp: owed_thread_def split: list.splits call.splits)
next
  case (Adv_fetch_current n)
  then show ?thesis
    using assms by (auto simp: owed_thread_def fetch_add_current_def)
next
  case (Adv_fetch_index p)
  then show ?thesis
    using assms by (auto simp: owed_thread_def fetch_add_history_index_def)
next
  case (Adv_read_clock p i)
  then show ?thesis
    using assms by (auto simp: owed_thread_def)
next
  case (Adv_store_progress p i ts)
  then show ?thesis
    using assms by (auto simp: owed_thread_def with_tracker_def store_progress_def)
next
  case (Adv_store_timestamp i ts)
  then show ?thesis
    using assms by (auto simp: owed_thread_def with_tracker_def store_timestamp_def)
next
  case Ren_guard
  then show ?thesis
    using assms by (auto simp: owed_thread_def split: if_splits)
next
  case Ren_read_clock
  then show ?thesis
    using assms by (auto simp: owed_thread_def)
next
  case (Ren_load_last m)
  then show ?thesis
    using assms by (auto simp: owed_thread_def)
next
  case (Ren_cas m l)
  then show ?thesis
    using assms by (auto simp: owed_thread_def cas_last_render_time_def split: if_splits)
next
  case Ren_dispatch
  then show ?thesis
    using assms by (auto simp: owed_thread_def dispatch_render_def split: option.splits)
next
  case Fin_cas
  then show ?thesis
    using assms by (auto simp: owed_thread_def cas_finished_def split: if_splits)
next
  case Fin_dispatch
  then show ?thesis
    using assms
    by (auto simp: owed_thread_def dispatch_finish_def split: if_splits option.splits)
qed

lemma step_owed:
  assumes "tracker_m (shared_bar c) = Some tr"
  shows "\<exists>tr'. tracker_m (shared_bar (step tty e c)) = Some tr'
           \<and> current_m tr' + owed (step tty e c) = current_m tr + owed c"
proof -
  obtain tid now sp where e: "e = (tid, now, sp)" by (cases e)
  show ?thesis
  proof (cases "tid < length (threads c)")
    case False
    then show ?thesis using assms by (simp add: e step_out_of_range)
  next
    case True
    obtain t' b' out' where
      ts: "thread_step tty now sp (threads c ! tid) (shared_bar c) (dispatched c) = (t', b', out')"
      by (cases "thread_step tty now sp (threads c ! tid) (shared_bar c) (dispatched c)")
    from thread_step_owed [OF ts assms] obtain tr' where
      tr': "tracker_m b' = Some tr'"
      "current_m tr' + owed_thread t' = current_m tr + owed_thread (threads c ! tid)"
      by blast
    have l: "sum_list (map owed_thread ((threads c)[tid := t'])) + owed_thread (threads c ! tid)
             = sum_list (map owed_thread (threads c)) + owed_thread t'"
      using True by (rule sum_list_map_update)
    have "(current_m tr' + sum_list (map owed_thread ((threads c)[tid := t'])))
            + (owed_thread t' + owed_thread (threads c ! tid))
          = (current_m tr + sum_list (map owed_thread (threads c)))
            + (owed_thread t' + owed_thread (threads c ! tid))"
      using tr'(2) l by (simp add: algebra_simps)
    then have "current_m tr' + sum_list (map owed_thread ((threads c)[tid := t']))
          = current_m tr + sum_list (map owed_thread (threads c))"
      by (rule add_right_imp_eq)
    then show ?thesis
      by (simp add: e step_in_range [OF True ts] tr'(1) owed_def)
  qed
qed

lemma run_owed:
  "tracker_m (shared_bar c) = Some tr \<Longrightarrow>
   \<exists>tr'. tracker_m (shared_bar (run tty es c)) = Some tr'
           \<and> current_m tr' + owed (run tty es c) = current_m tr + owed c"
proof (induction es arbitrary: c tr)
  case Nil
  then show ?case by simp
next
  case (Cons e es)
  from step_owed [OF Cons.prems, of tty e] obtain tr1 where
    s: "tracker_m (shared_bar (step tty e c)) = Some tr1"
    "current_m tr1 + owed (step tty e c) = current_m tr + owed c"
    by blast
  from Cons.IH [OF s(1)] s(2) show ?case by simp
qed

lemma sum_list_map_zero:
  fixes f :: "'a \<Rightarrow> 'b::comm_monoid_add"
  shows "\<forall>x\<in>set xs. f x = 0 \<Longrightarrow> sum_list (map f xs) = 0"
  by (induction xs) simp_all

lemma owed_done:
  assumes "list_all thread_done (threads c)"
  shows "owed c = 0"
proof -
  have "\<forall>t\<in>set (threads c). owed_thread t = 0"
    using assms by (auto simp: list_all_iff thread_done_def owed_thread_def)
  then show ?thesis
    unfolding owed_def by (rule sum_list_map_zero)
qed

text \<open>The finished flag and the terminal dispatches, one step of one thread.\<close>

lemma thread_step_finishes:
  assumes "thread_step tty now sp t b out = (t', b', out')"
  shows "(finished_m b \<longrightarrow> finished_m b')
       \<and> length (filter is_Finish out') + at_fin_dispatch t' + (if finished_m b' then 0 else 1)
           \<le> length (filter is_Finish out) + at_fin_dispatch t + (if finished_m b then 0 else 1)
       \<and> (tty \<and> tracker_m b \<noteq> None \<and> display_m b \<noteq> None \<longrightarrow>
            length (filter is_Finish out') + at_fin_dispatch t' + (if finished_m b' then 0 else 1)
            = length (filter is_Finish out) + at_fin_dispatch t + (if finished_m b then 0 else 1))
       \<and> (tracker_m b' = None \<longleftrightarrow> tracker_m b = None) \<and> display_m b' = display_m b
       \<and> (finished_m b' \<or> finish_calls_left t' = finish_calls_left t)"
proof (cases "pc t")
  case Idle
  then show ?thesis
    using assms
    by (auto simp: at_fin_dispatch_def finish_calls_left_def
        split: list.splits call.splits if_splits)
next
  case (Adv_fetch_current n)
  then show ?thesis
    using assms
    by (auto simp: at_fin_dispatch_def finish_calls_left_def fetch_add_current_def
        split: option.splits)
next
  case (Adv_fetch_index p)
  then show ?thesis
    using assms
    by (auto simp: at_fin_dispatch_def finish_calls_left_def fetch_add_history_index_def
        split: option.splits)
next
  case (Adv_read_clock p i)
  then show ?thesis
    using assms
    by (auto simp: at_fin_dispatch_def finish_calls_left_def split: option.splits)
next
  case (Adv_store_progress p i ts)
  then show ?thesis
    using assms
    by (auto simp: at_fin_dispatch_def finish_calls_left_def with_tracker_def
        split: option.splits)
next
  case (Adv_store_timestamp i ts)
  then show ?thesis
    using assms
    by (auto simp: at_fin_dispatch_def finish_calls_left_def with_tracker_def
        split: option.splits)
next
  case Ren_guard
  then show ?thesis
    using assms
    by (auto simp: at_fin_dispatch_def finish_calls_left_def split: if_splits)
next
  case Ren_read_clock
  then show ?thesis
    using assms by (auto simp: at_fin_dispatch_def finish_calls_left_def)
next
  case (Ren_load_last m)
  then show ?thesis
    using assms by (auto simp: at_fin_dispatch_def finish_calls_left_def)
next
  case (Ren_cas m l)
  then show ?thesis
    using assms
    by (auto simp: at_fin_dispatch_def finish_calls_left_def cas_last_render_time_def
        split: if_splits)
next
  case Ren_dispatch
  then show ?thesis
    using assms
    by (auto simp: at_fin_dispatch_def finish_calls_left_def dispatch_render_def
        split: option.splits)
next
  case Fin_cas
  then show ?thesis
    using assms
    by (auto simp: at_fin_dispatch_def finish_calls_left_def cas_finished_def
        split: if_splits)
next
  case Fin_dispatch
  then show ?thesis
    using assms
    by (auto simp: at_fin_dispatch_def finish_calls_left_def dispatch_finish_def
        split: if_splits option.splits)
qed

text \<open>The render gate, one step of one thread.\<close>

lemma thread_step_renders:
  assumes "thread_step tty now sp t b out = (t', b', out')"
  shows "33 * int (length (filter is_Render out') + at_ren_dispatch t') + last_render_time_m b
           \<le> 33 * int (length (filter is_Render out) + at_ren_dispatch t) + last_render_time_m b'"
proof (cases "pc t")
  case Idle
  then show ?thesis
    using assms by (auto simp: at_ren_dispatch_def split: list.splits call.splits if_splits)
next
  case (Adv_fetch_current n)
  then show ?thesis
    using assms by (auto simp: at_ren_dispatch_def fetch_add_current_def split: option.splits)
next
  case (Adv_fetch_index p)
  then show ?thesis
    using assms
    by (auto simp: at_ren_dispatch_def fetch_add_history_index_def split: option.splits)
next
  case (Adv_read_clock p i)
  then show ?thesis
    using assms by (auto simp: at_ren_dispatch_def split: option.splits)
next
  case (Adv_store_progress p i ts)
  then show ?thesis
    using assms by (auto simp: at_ren_dispatch_def with_tracker_def split: option.splits)
next
  case (Adv_store_timestamp i ts)
  then show ?thesis
    using assms by (auto simp: at_ren_dispatch_def with_tracker_def split: option.splits)
next
  case Ren_guard
  then show ?thesis
    using assms by (auto simp: at_ren_dispatch_def split: if_splits)
next
  case Ren_read_clock
  then show ?thesis
    using assms by (auto simp: at_ren_dispatch_def)
next
  case (Ren_load_last m)
  then show ?thesis
    using assms by (auto simp: at_ren_dispatch_def)
next
  case (Ren_cas m l)
  then show ?thesis
    using assms
    by (auto simp: at_ren_dispatch_def cas_last_render_time_def min_render_interval_def
        split: if_splits)
next
  case Ren_dispatch
  then show ?thesis
    using assms by (auto simp: at_ren_dispatch_def dispatch_render_def split: option.splits)
next
  case Fin_cas
  then show ?thesis
    using assms by (auto simp: at_ren_dispatch_def cas_finished_def split: if_splits)
next
  case Fin_dispatch
  then show ?thesis
    using assms
    by (auto simp: at_ren_dispatch_def dispatch_finish_def split: if_splits option.splits)
qed

text \<open>How a thread comes to dispatch a render, and what a failed attempt does.\<close>

lemma thread_step_granted:
  assumes "thread_step tty now sp t b out = (t', b', out')"
    and "pc t' = Ren_dispatch" and "pc t \<noteq> Ren_dispatch"
  shows "\<exists>now_ms last_ms. pc t = Ren_cas now_ms last_ms
           \<and> now_ms - last_ms \<ge> min_render_interval
           \<and> last_render_time_m b = last_ms \<and> \<not> sp \<and> last_render_time_m b' = now_ms
           \<and> out' = out"
  using assms
  by (cases "pc t")
    (auto simp: cas_last_render_time_def cas_finished_def dispatch_finish_def
      split: if_splits list.splits call.splits option.splits prod.splits)

lemma thread_step_refused:
  assumes "pc t = Ren_cas now_ms last_ms"
    and "now_ms - last_ms < min_render_interval \<or> last_render_time_m b \<noteq> last_ms \<or> sp"
  shows "thread_step tty now sp t b out = (t\<lparr>pc := Idle\<rparr>, b, out)"
  using assms by (auto simp: cas_last_render_time_def)

lemma thread_step_render_source:
  assumes "thread_step tty now sp t b out = (t', b', out')"
    and "filter is_Render out' \<noteq> filter is_Render out"
  shows "pc t = Ren_dispatch \<and> (\<exists>d tr. out' = out @ [Render d tr])"
  using assms
  by (cases "pc t")
    (auto simp: cas_last_render_time_def cas_finished_def dispatch_finish_def
      dispatch_render_def
      split: if_splits list.splits call.splits option.splits prod.splits)

subsection \<open>Threads: executions\<close>

lemma step_finishes:
  "(finished_m (shared_bar c) \<longrightarrow> finished_m (shared_bar (step tty e c)))
   \<and> finishes (step tty e c) + unfinished (shared_bar (step tty e c))
       \<le> finishes c + unfinished (shared_bar c)
   \<and> (tty \<and> tracker_m (shared_bar c) \<noteq> None \<and> display_m (shared_bar c) \<noteq> None \<longrightarrow>
        finishes (step tty e c) + unfinished (shared_bar (step tty e c))
        = finishes c + unfinished (shared_bar c))
   \<and> (tracker_m (shared_bar (step tty e c)) = None \<longleftrightarrow> tracker_m (shared_bar c) = None)
   \<and> display_m (shared_bar (step tty e c)) = display_m (shared_bar c)
   \<and> (finished_m (shared_bar (step tty e c)) \<or> finish_calls (step tty e c) = finish_calls c)"
proof -
  obtain tid now sp where e: "e = (tid, now, sp)" by (cases e)
  show ?thesis
  proof (cases "tid < length (threads c)")
    case False
    then show ?thesis by (simp add: e step_out_of_range)
  next
    case True
    obtain t' b' out' where
      ts: "thread_step tty now sp (threads c ! tid) (shared_bar c) (dispatched c) = (t', b', out')"
      by (cases "thread_step tty now sp (threads c ! tid) (shared_bar c) (dispatched c)")
    note s = step_in_range [OF True ts]
    have l1: "sum_list (map at_fin_dispatch ((threads c)[tid := t'])) + at_fin_dispatch (threads c ! tid)
             = sum_list (map at_fin_dispatch (threads c)) + at_fin_dispatch t'"
      using True by (rule sum_list_map_update)
    have l2: "sum_list (map finish_calls_left ((threads c)[tid := t'])) + finish_calls_left (threads c ! tid)
             = sum_list (map finish_calls_left (threads c)) + finish_calls_left t'"
      using True by (rule sum_list_map_update)
    note f = thread_step_finishes [OF ts, folded unfinished_def]
    have c1: "finished_m (shared_bar c) \<longrightarrow> finished_m b'"
      using f by blast
    have c2: "length (filter is_Finish out') + sum_list (map at_fin_dispatch ((threads c)[tid := t']))
                + unfinished b'
              \<le> length (filter is_Finish (dispatched c)) + sum_list (map at_fin_dispatch (threads c))
                + unfinished (shared_bar c)"
      using f l1 by linarith
    have c3: "tty \<and> tracker_m (shared_bar c) \<noteq> None \<and> display_m (shared_bar c) \<noteq> None \<longrightarrow>
              length (filter is_Finish out') + sum_list (map at_fin_dispatch ((threads c)[tid := t']))
                + unfinished b'
              = length (filter is_Finish (dispatched c)) + sum_list (map at_fin_dispatch (threads c))
                + unfinished (shared_bar c)"
      using f l1 by auto
    have c4: "(tracker_m b' = None \<longleftrightarrow> tracker_m (shared_bar c) = None)
              \<and> display_m b' = display_m (shared_bar c)"
      using f by blast
    have c5: "finished_m b' \<or> sum_list (map finish_calls_left ((threads c)[tid := t']))
                = sum_list (map finish_calls_left (threads c))"
      using f l2 by auto
    show ?thesis
      unfolding e s finishes_def finish_calls_def
      using c1 c2 c3 c4 c5 by simp
  qed
qed

lemma run_finishes:
  "(finished_m (shared_bar c) \<longrightarrow> finished_m (shared_bar (run tty es c)))
   \<and> finishes (run tty es c) + unfinished (shared_bar (run tty es c))
       \<le> finishes c + unfinished (shared_bar c)
   \<and> (tty \<and> tracker_m (shared_bar c) \<noteq> None \<and> display_m (shared_bar c) \<noteq> None \<longrightarrow>
        finishes (run tty es c) + unfinished (shared_bar (run tty es c))
        = finishes c + unfinished (shared_bar c))
   \<and> (finished_m (shared_bar (run tty es c)) \<or> finish_calls (run tty es c) = finish_calls c)"
proof (induction es arbitrary: c)
  case Nil
  show ?case by simp
next
  case (Cons e es)
  from Cons.IH [of "step tty e c"] step_finishes [of c tty e] show ?case
    by (simp split: if_splits) (metis le_trans)
qed

lemma thread_step_no_tty:
  assumes "thread_step False now sp t b out = (t', b', out')"
  shows "filter is_Finish out' = filter is_Finish out"
  using assms
  by (cases "pc t")
    (auto simp: cas_last_render_time_def cas_finished_def dispatch_render_def
      split: if_splits list.splits call.splits option.splits prod.splits)

lemma step_no_tty:
  "filter is_Finish (dispatched (step False e c)) = filter is_Finish (dispatched c)"
proof -
  obtain tid now sp where e: "e = (tid, now, sp)" by (cases e)
  show ?thesis
  proof (cases "tid < length (threads c)")
    case False
    then show ?thesis by (simp add: e step_out_of_range)
  next
    case True
    obtain t' b' out' where
      ts: "thread_step False now sp (threads c ! tid) (shared_bar c) (dispatched c) = (t', b', out')"
      by (cases "thread_step False now sp (threads c ! tid) (shared_bar c) (dispatched c)")
    from thread_step_no_tty [OF ts] show ?thesis
      by (simp add: e step_in_range [OF True ts])
  qed
qed

lemma run_no_tty:
  "filter is_Finish (dispatched (run False es c)) = filter is_Finish (dispatched c)"
  by (induction es arbitrary: c) (simp_all add: step_no_tty)

lemma step_renders:
  "33 * int (renders (step tty e c)) + last_render_time_m (shared_bar c)
     \<le> 33 * int (renders c) + last_render_time_m (shared_bar (step tty e c))"
proof -
  obtain tid now sp where e: "e = (tid, now, sp)" by (cases e)
  show ?thesis
  proof (cases "tid < length (threads c)")
    case False
    then show ?thesis by (simp add: e step_out_of_range)
  next
    case True
    obtain t' b' out' where
      ts: "thread_step tty now sp (threads c ! tid) (shared_bar c) (dispatched c) = (t', b', out')"
      by (cases "thread_step tty now sp (threads c ! tid) (shared_bar c) (dispatched c)")
    have l: "sum_list (map at_ren_dispatch ((threads c)[tid := t'])) + at_ren_dispatch (threads c ! tid)
             = sum_list (map at_ren_dispatch (threads c)) + at_ren_dispatch t'"
      using True by (rule sum_list_map_update)
    from thread_step_renders [OF ts] l show ?thesis
      unfolding e step_in_range [OF True ts] renders_def by simp
  qed
qed

lemma run_renders:
  "33 * int (renders (run tty es c)) + last_render_time_m (shared_bar c)
     \<le> 33 * int (renders c) + last_render_time_m (shared_bar (run tty es c))"
proof (induction es arbitrary: c)
  case Nil
  show ?case by simp
next
  case (Cons e es)
  from Cons.IH [of "step tty e c"] step_renders [of tty e c] show ?case
    by simp
qed

lemma sum_list_map_concat:
  fixes f :: "'a \<Rightarrow> 'b::comm_monoid_add"
  shows "\<forall>t\<in>set ts. f t = sum_list (map g (h t)) \<Longrightarrow>
         sum_list (map f ts) = sum_list (map g (concat (map h ts)))"
  by (induction ts) simp_all

lemma idle_counts:
  assumes "list_all thread_idle (threads c)"
  shows "sum_list (map at_fin_dispatch (threads c)) = 0"
    and "sum_list (map at_ren_dispatch (threads c)) = 0"
    and "owed c = sum_list (map owed_call (concat (map pending (threads c))))"
proof -
  have a: "\<forall>t\<in>set (threads c). at_fin_dispatch t = 0"
    using assms by (auto simp: list_all_iff thread_idle_def at_fin_dispatch_def)
  then show "sum_list (map at_fin_dispatch (threads c)) = 0"
    by (rule sum_list_map_zero)
  have "\<forall>t\<in>set (threads c). at_ren_dispatch t = 0"
    using assms by (auto simp: list_all_iff thread_idle_def at_ren_dispatch_def)
  then show "sum_list (map at_ren_dispatch (threads c)) = 0"
    by (rule sum_list_map_zero)
  have "\<forall>t\<in>set (threads c). owed_thread t = sum_list (map owed_call (pending t))"
    using assms by (auto simp: list_all_iff thread_idle_def owed_thread_def)
  then show "owed c = sum_list (map owed_call (concat (map pending (threads c))))"
    unfolding owed_def by (rule sum_list_map_concat)
qed

lemma done_idle: "list_all thread_done ts \<Longrightarrow> list_all thread_idle ts"
  by (auto simp: list_all_iff thread_done_def thread_idle_def)

lemma done_finish_calls:
  assumes "list_all thread_done (threads c)"
  shows "finish_calls c = 0"
proof -
  have "\<forall>t\<in>set (threads c). finish_calls_left t = 0"
    using assms by (auto simp: list_all_iff thread_done_def finish_calls_left_def)
  then show ?thesis
    unfolding finish_calls_def by (rule sum_list_map_zero)
qed

subsection \<open>A thread alone performs the sequential methods\<close>

lemma step_solo:
  "step tty (0, now, sp) \<lparr>shared_bar = b, dispatched = out, threads = [t]\<rparr>
   = (case thread_step tty now sp t b out of
        (t', b', out') \<Rightarrow> \<lparr>shared_bar = b', dispatched = out', threads = [t']\<rparr>)"
  by (simp add: step_def del: thread_step.simps)

lemma solo_finish:
  "run tty [(0, x1, y1), (0, x2, y2), (0, x3, y3)]
     \<lparr>shared_bar = b, dispatched = out, threads = [\<lparr>pc = Idle, pending = [Finish_call]\<rparr>]\<rparr>
   = (case finish tty (b, out) of
        (b', out') \<Rightarrow>
          \<lparr>shared_bar = b', dispatched = out', threads = [\<lparr>pc = Idle, pending = []\<rparr>]\<rparr>)"
proof (cases "finished_m b")
  case True
  then show ?thesis
    by (simp add: step_solo finish_def cas_finished_def)
next
  case False
  then show ?thesis
    by (cases tty; cases "tracker_m b"; cases "display_m b")
      (simp_all add: step_solo finish_def cas_finished_def dispatch_finish_def)
qed

lemma solo_tracker_advance:
  assumes "tracker_m b = Some tr"
  shows "run tty [(0, x1, y1), (0, x2, y2), (0, x3, y3), (0, now, y4), (0, x5, y5), (0, x6, y6)]
     \<lparr>shared_bar = b, dispatched = out, threads = [\<lparr>pc = Idle, pending = [Advance n]\<rparr>]\<rparr>
   = \<lparr>shared_bar = b\<lparr>tracker_m := Some (advance n now tr)\<rparr>, dispatched = out,
      threads = [\<lparr>pc = Ren_guard, pending = []\<rparr>]\<rparr>"
  using assms
  by (simp add: step_solo advance_def fetch_add_current_def fetch_add_history_index_def
      with_tracker_def store_progress_def store_timestamp_def Let_def)

lemma solo_try_render:
  "run tty [(0, x7, y7), (0, now, y8), (0, x9, y9), (0, x10, sp), (0, x11, y11)]
     \<lparr>shared_bar = b, dispatched = out, threads = [\<lparr>pc = Ren_guard, pending = []\<rparr>]\<rparr>
   = (case try_render tty now sp (b, out) of
        (b', out') \<Rightarrow>
          \<lparr>shared_bar = b', dispatched = out', threads = [\<lparr>pc = Idle, pending = []\<rparr>]\<rparr>)"
proof (cases "\<not> tty \<or> tracker_m b = None \<or> display_m b = None")
  case True
  then show ?thesis
    by (auto simp: step_solo try_render_def)
next
  case guard: False
  show ?thesis
  proof (cases "to_milliseconds now - last_render_time_m b \<ge> min_render_interval")
    case False
    then show ?thesis
      using guard by (simp add: step_solo try_render_def Let_def)
  next
    case True
    then show ?thesis
      using guard
      by (cases sp)
        (auto simp: step_solo try_render_def Let_def cas_last_render_time_def
          dispatch_render_def)
  qed
qed

lemma solo_bar_advance:
  "run tty [(0, x1, y1), (0, x2, y2), (0, x3, y3), (0, now_tracker, y4), (0, x5, y5),
            (0, x6, y6), (0, x7, y7), (0, now_render, y8), (0, x9, y9), (0, x10, sp),
            (0, x11, y11)]
     \<lparr>shared_bar = b, dispatched = out, threads = [\<lparr>pc = Idle, pending = [Advance n]\<rparr>]\<rparr>
   = (case bar_advance tty n now_tracker now_render sp (b, out) of
        (b', out') \<Rightarrow>
          \<lparr>shared_bar = b', dispatched = out', threads = [\<lparr>pc = Idle, pending = []\<rparr>]\<rparr>)"
proof (cases "tracker_m b")
  case None
  then show ?thesis
    by (simp add: step_solo bar_advance_def try_render_def)
next
  case (Some tr)
  have split: "run tty [(0, x1, y1), (0, x2, y2), (0, x3, y3), (0, now_tracker, y4), (0, x5, y5),
            (0, x6, y6), (0, x7, y7), (0, now_render, y8), (0, x9, y9), (0, x10, sp),
            (0, x11, y11)] c
     = run tty [(0, x7, y7), (0, now_render, y8), (0, x9, y9), (0, x10, sp), (0, x11, y11)]
         (run tty [(0, x1, y1), (0, x2, y2), (0, x3, y3), (0, now_tracker, y4), (0, x5, y5),
            (0, x6, y6)] c)" for c
    by simp
  show ?thesis
    unfolding split solo_tracker_advance [OF Some] solo_try_render
    by (simp add: bar_advance_def Some)
qed

subsection \<open>Conservation of the increments\<close>

lemma advance_fields:
  "current_m (advance n now tr) = current_m tr + n"
  "history_index_m (advance n now tr) = history_index_m tr + 1"
  "total_m (advance n now tr) = total_m tr"
  "start_time_m (advance n now tr) = start_time_m tr"
  by (simp_all add: advance_def fetch_add_current_def fetch_add_history_index_def
      store_progress_def store_timestamp_def Let_def)

lemma history_entry_overwrite:
  "(e::history_entry)\<lparr>progress := p, timestamp := t\<rparr> = \<lparr>progress = p, timestamp = t\<rparr>"
  by (cases e) simp

lemma advance_history:
  assumes "tracker_wf tr"
  shows "history_m (advance n now tr)
           = (history_m tr)[unat (history_index_m tr) mod HISTORY_SIZE :=
               \<lparr>progress = current_m tr + n,
                timestamp = to_microseconds (now - start_time_m tr)\<rparr>]"
    and "tracker_wf (advance n now tr)"
proof -
  have "unat (history_index_m tr) mod HISTORY_SIZE < length (history_m tr)"
    using assms by (simp add: tracker_wf_def HISTORY_SIZE_def)
  then show "history_m (advance n now tr)
           = (history_m tr)[unat (history_index_m tr) mod HISTORY_SIZE :=
               \<lparr>progress = current_m tr + n,
                timestamp = to_microseconds (now - start_time_m tr)\<rparr>]"
    by (simp add: advance_def fetch_add_current_def fetch_add_history_index_def
        store_progress_def store_timestamp_def Let_def history_entry_overwrite)
  show "tracker_wf (advance n now tr)"
    using assms
    by (simp add: tracker_wf_def advance_def fetch_add_current_def fetch_add_history_index_def
        store_progress_def store_timestamp_def Let_def)
qed

text \<open>
  Claim C1. \<^verbatim>\<open>advance(n)\<close> adds \<open>n\<close> to the counter (in \<^verbatim>\<open>std::size_t\<close> arithmetic),
  takes one slot of the ring, the one the write cursor designates, and stores there
  the new counter value with the microseconds since the start. For threads that call
  \<^verbatim>\<open>advance\<close> (and \<^verbatim>\<open>finish\<close>) on a shared bar, under every schedule, the counter plus
  the increments not yet added is constant; hence once every call has completed the
  counter is its prior value plus the sum of all increments.
\<close>

theorem C1_increments_conserved:
  "current_m (advance n now tr) = current_m tr + n
   \<and> history_index_m (advance n now tr) = history_index_m tr + 1
   \<and> (tracker_wf tr \<longrightarrow>
        tracker_wf (advance n now tr)
        \<and> history_m (advance n now tr)
           = (history_m tr)[unat (history_index_m tr) mod HISTORY_SIZE :=
               \<lparr>progress = current_m tr + n,
                timestamp = to_microseconds (now - start_time_m tr)\<rparr>])
   \<and> (tracker_m (shared_bar c) = Some tr \<longrightarrow>
        (\<exists>tr'. tracker_m (shared_bar (run tty es c)) = Some tr'
           \<and> current_m tr' + owed (run tty es c) = current_m tr + owed c))
   \<and> (tracker_m (shared_bar c) = Some tr \<and> list_all thread_idle (threads c)
        \<and> list_all thread_done (threads (run tty es c)) \<longrightarrow>
        (\<exists>tr'. tracker_m (shared_bar (run tty es c)) = Some tr'
           \<and> current tr'
               = current tr + sum_list (map owed_call (concat (map pending (threads c))))))"
proof -
  have conc: "tracker_m (shared_bar c) = Some tr \<longrightarrow>
        (\<exists>tr'. tracker_m (shared_bar (run tty es c)) = Some tr'
           \<and> current_m tr' + owed (run tty es c) = current_m tr + owed c)"
    using run_owed by blast
  have fin: "tracker_m (shared_bar c) = Some tr \<and> list_all thread_idle (threads c)
        \<and> list_all thread_done (threads (run tty es c)) \<longrightarrow>
        (\<exists>tr'. tracker_m (shared_bar (run tty es c)) = Some tr'
           \<and> current tr'
               = current tr + sum_list (map owed_call (concat (map pending (threads c)))))"
  proof
    assume a: "tracker_m (shared_bar c) = Some tr \<and> list_all thread_idle (threads c)
        \<and> list_all thread_done (threads (run tty es c))"
    then obtain tr' where t: "tracker_m (shared_bar (run tty es c)) = Some tr'"
      "current_m tr' + owed (run tty es c) = current_m tr + owed c"
      using run_owed by blast
    have "owed (run tty es c) = 0"
      using a by (simp add: owed_done)
    moreover have "owed c = sum_list (map owed_call (concat (map pending (threads c))))"
      using a by (simp add: idle_counts(3))
    ultimately show "\<exists>tr'. tracker_m (shared_bar (run tty es c)) = Some tr'
           \<and> current tr'
               = current tr + sum_list (map owed_call (concat (map pending (threads c))))"
      using t by (simp add: current_def)
  qed
  have seq: "tracker_wf tr \<longrightarrow>
        tracker_wf (advance n now tr)
        \<and> history_m (advance n now tr)
           = (history_m tr)[unat (history_index_m tr) mod HISTORY_SIZE :=
               \<lparr>progress = current_m tr + n,
                timestamp = to_microseconds (now - start_time_m tr)\<rparr>]"
    using advance_history by blast
  show ?thesis
    using advance_fields(1,2) seq conc fin by blast
qed

theorem C1_increments_conserved_witness:
  "list_all thread_done (threads (run False
      [(0, 0, False), (1, 0, False), (0, 0, False), (1, 0, False), (0, 0, False),
       (1, 0, False), (1, 7000, False), (0, 9000, False), (0, 0, False), (1, 0, False),
       (0, 0, False), (1, 0, False), (0, 0, False), (1, 0, False)]
      \<lparr>shared_bar = fst (progress_bar_init False 10 None 0 []), dispatched = [],
       threads = [\<lparr>pc = Idle, pending = [Advance 2]\<rparr>, \<lparr>pc = Idle, pending = [Advance 3]\<rparr>]\<rparr>))
   \<and> map_option current (tracker_m (shared_bar (run False
      [(0, 0, False), (1, 0, False), (0, 0, False), (1, 0, False), (0, 0, False),
       (1, 0, False), (1, 7000, False), (0, 9000, False), (0, 0, False), (1, 0, False),
       (0, 0, False), (1, 0, False), (0, 0, False), (1, 0, False)]
      \<lparr>shared_bar = fst (progress_bar_init False 10 None 0 []), dispatched = [],
       threads = [\<lparr>pc = Idle, pending = [Advance 2]\<rparr>, \<lparr>pc = Idle, pending = [Advance 3]\<rparr>]\<rparr>)))
     = Some 5"
proof -
  let ?c = "\<lparr>shared_bar = fst (progress_bar_init False 10 None 0 []), dispatched = [],
       threads = [\<lparr>pc = Idle, pending = [Advance 2]\<rparr>, \<lparr>pc = Idle, pending = [Advance 3]\<rparr>]\<rparr>"
  let ?es = "[(0, 0, False), (1, 0, False), (0, 0, False), (1, 0, False), (0, 0, False),
       (1, 0, False), (1, 7000, False), (0, 9000, False), (0, 0, False), (1, 0, False),
       (0, 0, False), (1, 0, False), (0, 0, False), (1, 0, False)] :: sched_entry list"
  have t: "tracker_m (shared_bar ?c) = Some (progress_tracker_init 10 0)"
    by (simp add: progress_bar_init_def Let_def)
  have i: "list_all thread_idle (threads ?c)"
    by (simp add: thread_idle_def)
  have d: "list_all thread_done (threads (run False ?es ?c))"
    by code_simp
  have s: "current (progress_tracker_init 10 0)
             + sum_list (map owed_call (concat (map pending (threads ?c)))) = 5"
    by (simp add: current_def progress_tracker_init_def)
  have "\<exists>tr'. tracker_m (shared_bar (run False ?es ?c)) = Some tr'
           \<and> current tr'
               = current (progress_tracker_init 10 0)
                 + sum_list (map owed_call (concat (map pending (threads ?c))))"
    using C1_increments_conserved [of 0 0 "progress_tracker_init 10 0" ?c False ?es] t i d
    by blast
  then have "map_option current (tracker_m (shared_bar (run False ?es ?c))) = Some 5"
    unfolding s by auto
  then show ?thesis
    using d by blast
qed

subsection \<open>The one-shot finish\<close>

text \<open>
  Claim C3 as stated fails: on an active bar whose output is not interactive, three
  calls of \<^verbatim>\<open>finish()\<close> set the finished flag and dispatch no terminal \<^verbatim>\<open>finish\<close>.
\<close>

theorem C3_counterexample:
  "\<not> finished_m (fst (progress_bar_init False 10 None 0 []))
   \<and> finished_m (fst ((finish False ^^ 3) (progress_bar_init False 10 None 0 [])))
   \<and> length (filter is_Finish (snd ((finish False ^^ 3) (progress_bar_init False 10 None 0 []))))
       = 0"
  by (simp add: progress_bar_init_def Let_def finish_def cas_finished_def numeral_3_eq_3)

text \<open>
  Claim C3, amended. On an active bar (with its tracker and display in place) the first
  \<^verbatim>\<open>finish()\<close> sets the finished flag and, when the output is interactive, dispatches
  the terminal \<^verbatim>\<open>finish\<close> of the display; when it is not interactive it dispatches
  nothing. Any number of calls amounts to one call, and on a finished bar a call changes
  nothing. For threads calling \<^verbatim>\<open>finish()\<close> (and \<^verbatim>\<open>advance\<close>) concurrently, under
  every schedule at most one terminal dispatch is added; once all calls have completed,
  if there was a call of \<^verbatim>\<open>finish()\<close> the flag is set and the terminal dispatches
  added are exactly one under an interactive signal and none otherwise.
\<close>

theorem C3_finish_one_shot:
  assumes "\<not> finished_m b" and "tracker_m b = Some tr" and "display_m b = Some d"
  shows "finish tty (b, out) = (b\<lparr>finished_m := True\<rparr>, if tty then out @ [Finish d tr] else out)
     \<and> (finish tty ^^ Suc n) (b, out) = finish tty (b, out)
     \<and> finish tty (finish tty (b, out)) = finish tty (b, out)
     \<and> (shared_bar c = b \<and> list_all thread_idle (threads c) \<longrightarrow>
          length (filter is_Finish (dispatched (run tty es c)))
            \<le> length (filter is_Finish (dispatched c)) + 1
          \<and> (list_all thread_done (threads (run tty es c)) \<and> 0 < finish_calls c \<longrightarrow>
               finished_m (shared_bar (run tty es c))
               \<and> length (filter is_Finish (dispatched (run tty es c)))
                   = length (filter is_Finish (dispatched c)) + (if tty then 1 else 0)))"
proof -
  have conc: "shared_bar c = b \<and> list_all thread_idle (threads c) \<longrightarrow>
          length (filter is_Finish (dispatched (run tty es c)))
            \<le> length (filter is_Finish (dispatched c)) + 1
          \<and> (list_all thread_done (threads (run tty es c)) \<and> 0 < finish_calls c \<longrightarrow>
               finished_m (shared_bar (run tty es c))
               \<and> length (filter is_Finish (dispatched (run tty es c)))
                   = length (filter is_Finish (dispatched c)) + (if tty then 1 else 0))"
  proof
    assume a: "shared_bar c = b \<and> list_all thread_idle (threads c)"
    let ?c' = "run tty es c"
    note r = run_finishes [where c = c and tty = tty and es = es]
    have f0: "finishes c = length (filter is_Finish (dispatched c))"
      using a by (simp add: finishes_def idle_counts(1))
    have u0: "unfinished (shared_bar c) = 1"
      using a assms(1) by (simp add: unfinished_def)
    have le: "finishes ?c' + unfinished (shared_bar ?c') \<le> length (filter is_Finish (dispatched c)) + 1"
      using r f0 u0 by simp
    have "length (filter is_Finish (dispatched ?c')) \<le> finishes ?c'"
      by (simp add: finishes_def)
    then have first: "length (filter is_Finish (dispatched ?c'))
            \<le> length (filter is_Finish (dispatched c)) + 1"
      using le by linarith
    have second: "finished_m (shared_bar ?c')
               \<and> length (filter is_Finish (dispatched ?c'))
                   = length (filter is_Finish (dispatched c)) + (if tty then 1 else 0)"
      if d: "list_all thread_done (threads ?c') \<and> 0 < finish_calls c"
    proof -
      have "finish_calls ?c' = 0"
        using d by (simp add: done_finish_calls)
      then have fin: "finished_m (shared_bar ?c')"
        using r d by auto
      have f1: "finishes ?c' = length (filter is_Finish (dispatched ?c'))"
        using d by (simp add: finishes_def idle_counts(1) done_idle)
      have "length (filter is_Finish (dispatched ?c'))
                   = length (filter is_Finish (dispatched c)) + (if tty then 1 else 0)"
      proof (cases tty)
        case True
        then have "finishes ?c' + unfinished (shared_bar ?c')
                   = finishes c + unfinished (shared_bar c)"
          using r a assms(2,3) by simp
        then show ?thesis
          using True fin f0 f1 u0 by (simp add: unfinished_def)
      next
        case False
        then show ?thesis
          using run_no_tty [where es = es and c = c] by simp
      qed
      then show ?thesis using fin by simp
    qed
    show "length (filter is_Finish (dispatched ?c'))
            \<le> length (filter is_Finish (dispatched c)) + 1
          \<and> (list_all thread_done (threads ?c') \<and> 0 < finish_calls c \<longrightarrow>
               finished_m (shared_bar ?c')
               \<and> length (filter is_Finish (dispatched ?c'))
                   = length (filter is_Finish (dispatched c)) + (if tty then 1 else 0))"
      using first second by blast
  qed
  show ?thesis
    using finish_active [OF assms, of tty out]
      finish_funpow [where tty = tty and n = n and s = "(b, out)"]
      finish_idem [where tty = tty and s = "(b, out)"] conc
    by blast
qed

theorem C3_finish_one_shot_witness:
  "length (filter is_Finish (snd ((finish True ^^ 3) (progress_bar_init True 10 None 0 [])))) = 1
   \<and> finished_m (fst ((finish True ^^ 3) (progress_bar_init True 10 None 0 [])))
   \<and> list_all thread_done (threads (run True
        [(0, 0, False), (1, 0, False), (1, 0, False), (0, 0, False), (0, 0, False), (1, 0, False)]
        \<lparr>shared_bar = fst (progress_bar_init True 10 None 0 []), dispatched = [],
         threads = [\<lparr>pc = Idle, pending = [Finish_call]\<rparr>,
                    \<lparr>pc = Idle, pending = [Finish_call]\<rparr>]\<rparr>))
   \<and> length (filter is_Finish (dispatched (run True
        [(0, 0, False), (1, 0, False), (1, 0, False), (0, 0, False), (0, 0, False), (1, 0, False)]
        \<lparr>shared_bar = fst (progress_bar_init True 10 None 0 []), dispatched = [],
         threads = [\<lparr>pc = Idle, pending = [Finish_call]\<rparr>,
                    \<lparr>pc = Idle, pending = [Finish_call]\<rparr>]\<rparr>))) = 1"
proof -
  let ?b = "fst (progress_bar_init True 10 None 0 [])"
  let ?o = "snd (progress_bar_init True 10 None 0 [])"
  let ?c = "\<lparr>shared_bar = ?b, dispatched = [],
         threads = [\<lparr>pc = Idle, pending = [Finish_call]\<rparr>,
                    \<lparr>pc = Idle, pending = [Finish_call]\<rparr>]\<rparr>"
  let ?es = "[(0, 0, False), (1, 0, False), (1, 0, False), (0, 0, False), (0, 0, False),
              (1, 0, False)] :: sched_entry list"
  have a: "\<not> finished_m ?b" "tracker_m ?b = Some (progress_tracker_init 10 0)"
    "display_m ?b = Some Bar_display"
    by (simp_all add: progress_bar_init_def Let_def)
  have o: "filter is_Finish ?o = []"
    by (simp add: progress_bar_init_def Let_def)
  have i: "shared_bar ?c = ?b \<and> list_all thread_idle (threads ?c)"
    by (simp add: thread_idle_def)
  have d: "list_all thread_done (threads (run True ?es ?c))"
    by code_simp
  have k: "0 < finish_calls ?c"
    by (simp add: finish_calls_def finish_calls_left_def)
  note th = C3_finish_one_shot [OF a, where tty = True and out = ?o and n = 2 and c = ?c
      and es = ?es]
  have s1: "(finish True ^^ Suc 2) (?b, ?o)
              = (?b\<lparr>finished_m := True\<rparr>, ?o @ [Finish Bar_display (progress_tracker_init 10 0)])"
    using th by simp
  have s2: "length (filter is_Finish (dispatched (run True ?es ?c)))
             = length (filter is_Finish (dispatched ?c)) + 1"
    using th i d k by simp
  have e: "(finish True ^^ 3) (progress_bar_init True 10 None 0 []) = (finish True ^^ Suc 2) (?b, ?o)"
    by (simp add: numeral_3_eq_3)
  show ?thesis
    unfolding e s1 using s2 d by (simp add: o)
qed

subsection \<open>The render gate\<close>

lemma try_render_granted:
  assumes "filter is_Render (snd (try_render tty now sp (b, out))) \<noteq> filter is_Render out"
  shows "tty \<and> to_milliseconds now - last_render_time_m b \<ge> min_render_interval \<and> \<not> sp
       \<and> last_render_time_m (fst (try_render tty now sp (b, out))) = to_milliseconds now
       \<and> (\<exists>d tr. snd (try_render tty now sp (b, out)) = out @ [Render d tr])"
  using assms
  by (auto simp: try_render_def Let_def cas_last_render_time_def dispatch_render_def
      split: if_splits option.splits)

lemma try_render_refused:
  assumes "to_milliseconds now - last_render_time_m b < min_render_interval \<or> sp"
  shows "try_render tty now sp (b, out) = (b, out)"
  using assms
  by (auto simp: try_render_def Let_def cas_last_render_time_def)

text \<open>
  Claim C7. The minimum interval is 33 ms. A call of \<^verbatim>\<open>try_render\<close> dispatches a render
  only if the output is interactive, the time since the last render timestamp is at
  least the interval and the compare-and-swap that stores the current time succeeds; a
  call whose window check or compare-and-swap fails changes nothing. Among threads, a
  thread comes to dispatch a render only by a compare-and-swap that succeeds after a
  window check that holds; a thread whose check or compare-and-swap fails returns with
  the bar and the output unchanged; a render is dispatched only by a thread so granted;
  and under every schedule each render granted moves the last render timestamp forward
  by at least the interval, so the renders granted during an execution number at most
  the advance of that timestamp divided by the interval.
\<close>

theorem C7_render_throttle:
  "min_render_interval = 33
   \<and> (filter is_Render (snd (try_render tty now sp (b, out))) \<noteq> filter is_Render out \<longrightarrow>
        tty \<and> to_milliseconds now - last_render_time_m b \<ge> min_render_interval \<and> \<not> sp
        \<and> last_render_time_m (fst (try_render tty now sp (b, out))) = to_milliseconds now
        \<and> (\<exists>d tr. snd (try_render tty now sp (b, out)) = out @ [Render d tr]))
   \<and> (to_milliseconds now - last_render_time_m b < min_render_interval \<or> sp \<longrightarrow>
        try_render tty now sp (b, out) = (b, out))
   \<and> (thread_step tty now sp t b out = (t', b', out')
        \<and> pc t' = Ren_dispatch \<and> pc t \<noteq> Ren_dispatch \<longrightarrow>
        (\<exists>now_ms last_ms. pc t = Ren_cas now_ms last_ms
           \<and> now_ms - last_ms \<ge> min_render_interval
           \<and> last_render_time_m b = last_ms \<and> \<not> sp \<and> last_render_time_m b' = now_ms
           \<and> out' = out))
   \<and> (pc t = Ren_cas now_ms last_ms
        \<and> (now_ms - last_ms < min_render_interval \<or> last_render_time_m b \<noteq> last_ms \<or> sp) \<longrightarrow>
        thread_step tty now sp t b out = (t\<lparr>pc := Idle\<rparr>, b, out))
   \<and> (thread_step tty now sp t b out = (t', b', out')
        \<and> filter is_Render out' \<noteq> filter is_Render out \<longrightarrow>
        pc t = Ren_dispatch \<and> (\<exists>d tr. out' = out @ [Render d tr]))
   \<and> min_render_interval * int (renders (run tty es c)) + last_render_time_m (shared_bar c)
       \<le> min_render_interval * int (renders c) + last_render_time_m (shared_bar (run tty es c))"
proof -
  have g: "thread_step tty now sp t b out = (t', b', out')
        \<and> pc t' = Ren_dispatch \<and> pc t \<noteq> Ren_dispatch \<longrightarrow>
        (\<exists>now_ms last_ms. pc t = Ren_cas now_ms last_ms
           \<and> now_ms - last_ms \<ge> min_render_interval
           \<and> last_render_time_m b = last_ms \<and> \<not> sp \<and> last_render_time_m b' = now_ms
           \<and> out' = out)"
    using thread_step_granted by blast
  have r: "pc t = Ren_cas now_ms last_ms
        \<and> (now_ms - last_ms < min_render_interval \<or> last_render_time_m b \<noteq> last_ms \<or> sp) \<longrightarrow>
        thread_step tty now sp t b out = (t\<lparr>pc := Idle\<rparr>, b, out)"
    using thread_step_refused by blast
  have s: "thread_step tty now sp t b out = (t', b', out')
        \<and> filter is_Render out' \<noteq> filter is_Render out \<longrightarrow>
        pc t = Ren_dispatch \<and> (\<exists>d tr. out' = out @ [Render d tr])"
    using thread_step_render_source by blast
  have e: "min_render_interval * int (renders (run tty es c)) + last_render_time_m (shared_bar c)
       \<le> min_render_interval * int (renders c) + last_render_time_m (shared_bar (run tty es c))"
    unfolding min_render_interval_def by (rule run_renders)
  have tg: "filter is_Render (snd (try_render tty now sp (b, out))) \<noteq> filter is_Render out \<longrightarrow>
        tty \<and> to_milliseconds now - last_render_time_m b \<ge> min_render_interval \<and> \<not> sp
        \<and> last_render_time_m (fst (try_render tty now sp (b, out))) = to_milliseconds now
        \<and> (\<exists>d tr. snd (try_render tty now sp (b, out)) = out @ [Render d tr])"
    using try_render_granted by blast
  have tr: "to_milliseconds now - last_render_time_m b < min_render_interval \<or> sp \<longrightarrow>
        try_render tty now sp (b, out) = (b, out)"
    using try_render_refused by blast
  show ?thesis
    using min_render_interval_def tg tr g r s e by blast
qed

theorem C7_render_throttle_witness:
  "list_all thread_done (threads (run True
      [(0, 0, False), (0, 0, False), (0, 0, False), (0, 50000000, False), (0, 0, False),
       (0, 0, False), (0, 0, False), (0, 50000000, False), (0, 0, False),
       (1, 0, False), (1, 0, False), (1, 0, False), (1, 60000000, False), (1, 0, False),
       (1, 0, False), (1, 0, False), (1, 60000000, False), (1, 0, False),
       (1, 0, False), (0, 0, False), (1, 0, False)]
      \<lparr>shared_bar = fst (progress_bar_init True 10 None 0 []),
       dispatched = snd (progress_bar_init True 10 None 0 []),
       threads = [\<lparr>pc = Idle, pending = [Advance 1]\<rparr>, \<lparr>pc = Idle, pending = [Advance 1]\<rparr>]\<rparr>))
   \<and> renders (run True
      [(0, 0, False), (0, 0, False), (0, 0, False), (0, 50000000, False), (0, 0, False),
       (0, 0, False), (0, 0, False), (0, 50000000, False), (0, 0, False),
       (1, 0, False), (1, 0, False), (1, 0, False), (1, 60000000, False), (1, 0, False),
       (1, 0, False), (1, 0, False), (1, 60000000, False), (1, 0, False),
       (1, 0, False), (0, 0, False), (1, 0, False)]
      \<lparr>shared_bar = fst (progress_bar_init True 10 None 0 []),
       dispatched = snd (progress_bar_init True 10 None 0 []),
       threads = [\<lparr>pc = Idle, pending = [Advance 1]\<rparr>, \<lparr>pc = Idle, pending = [Advance 1]\<rparr>]\<rparr>)
      = 2
   \<and> try_render True 20000000 False (fst (progress_bar_init True 10 None 0 []), [])
       = (fst (progress_bar_init True 10 None 0 []), [])"
proof -
  let ?b = "fst (progress_bar_init True 10 None 0 [])"
  let ?c = "\<lparr>shared_bar = ?b,
       dispatched = snd (progress_bar_init True 10 None 0 []),
       threads = [\<lparr>pc = Idle, pending = [Advance 1]\<rparr>, \<lparr>pc = Idle, pending = [Advance 1]\<rparr>]\<rparr>"
  let ?es = "[(0, 0, False), (0, 0, False), (0, 0, False), (0, 50000000, False), (0, 0, False),
       (0, 0, False), (0, 0, False), (0, 50000000, False), (0, 0, False),
       (1, 0, False), (1, 0, False), (1, 0, False), (1, 60000000, False), (1, 0, False),
       (1, 0, False), (1, 0, False), (1, 60000000, False), (1, 0, False),
       (1, 0, False), (0, 0, False), (1, 0, False)] :: sched_entry list"
  have d: "list_all thread_done (threads (run True ?es ?c))"
    by code_simp
  have l: "last_render_time_m (shared_bar (run True ?es ?c)) = 60"
    by code_simp
  have r0: "renders ?c = 1"
    by (simp add: renders_def progress_bar_init_def Let_def at_ren_dispatch_def)
  have l0: "last_render_time_m (shared_bar ?c) = 0"
    by (simp add: progress_bar_init_def Let_def)
  have lo: "2 \<le> renders (run True ?es ?c)"
    by code_simp
  note th = C7_render_throttle [where tty = True and es = ?es and c = ?c
      and now = 20000000 and sp = False and b = ?b and out = "[]"]
  have "33 * int (renders (run True ?es ?c)) + 0 \<le> 33 * 1 + 60"
    using th unfolding l r0 l0 by simp
  then have hi: "renders (run True ?es ?c) \<le> 2"
    by linarith
  have w: "to_milliseconds 20000000 - last_render_time_m ?b < min_render_interval"
    by (simp add: to_milliseconds_def tdiv_def min_render_interval_def progress_bar_init_def
        Let_def)
  have t: "try_render True 20000000 False (?b, []) = (?b, [])"
    using th w by blast
  show ?thesis
    using d lo hi t by simp
qed

subsection \<open>The range loop\<close>

lemma unit_advances_empty: "j \<le> i \<Longrightarrow> unit_advances clk i j = []"
  by (simp add: unit_advances_def)

lemma unit_advances_step:
  "i < j \<Longrightarrow> unit_advances clk i j
     = (case clk i of (t1, t2, sp) \<Rightarrow> (1, t1, t2, sp)) # unit_advances clk (Suc i) j"
  by (simp add: unit_advances_def upt_conv_Cons)

lemma iterate_from:
  "i \<le> n \<Longrightarrow>
   iterate tty clk \<lparr>it_current_m = i, it_end_m = n, it_bar_m = True\<rparr> (range_end n) s
     = Some (\<lparr>it_current_m = n, it_end_m = n, it_bar_m = True\<rparr>,
             advances tty (unit_advances clk i (n - 1)) s)"
proof (induction "n - i" arbitrary: i s)
  case 0
  then have "i = n" by simp
  then show ?case
    by (subst iterate.simps) (simp add: range_end_def unit_advances_empty)
next
  case (Suc k)
  then have lt: "i < n" and k: "k = n - Suc i" and le: "Suc i \<le> n" by simp_all
  obtain t1 t2 sp where c: "clk i = (t1, t2, sp)" by (cases "clk i")
  show ?case
  proof (cases "Suc i = n")
    case True
    have "iterate tty clk \<lparr>it_current_m = i, it_end_m = n, it_bar_m = True\<rparr> (range_end n) s
          = iterate tty clk \<lparr>it_current_m = Suc i, it_end_m = n, it_bar_m = True\<rparr> (range_end n) s"
      using lt True by (subst iterate.simps) (simp add: range_end_def c iter_incr_def)
    also have "\<dots> = Some (\<lparr>it_current_m = n, it_end_m = n, it_bar_m = True\<rparr>,
             advances tty (unit_advances clk (Suc i) (n - 1)) s)"
      using Suc.hyps(1) [OF k le] .
    finally show ?thesis
      using True by (simp add: unit_advances_empty)
  next
    case False
    then have lt1: "i < n - 1" using lt by simp
    have "iterate tty clk \<lparr>it_current_m = i, it_end_m = n, it_bar_m = True\<rparr> (range_end n) s
          = iterate tty clk \<lparr>it_current_m = Suc i, it_end_m = n, it_bar_m = True\<rparr> (range_end n)
              (bar_advance tty 1 t1 t2 sp s)"
      using lt False by (subst iterate.simps) (simp add: range_end_def c iter_incr_def)
    also have "\<dots> = Some (\<lparr>it_current_m = n, it_end_m = n, it_bar_m = True\<rparr>,
             advances tty (unit_advances clk (Suc i) (n - 1)) (bar_advance tty 1 t1 t2 sp s))"
      using Suc.hyps(1) [OF k le] .
    finally show ?thesis
      by (simp only: unit_advances_step [OF lt1] c prod.case advances.simps)
  qed
qed

lemma range_for_result:
  "range_for tty clk n s
     = Some (\<lparr>it_current_m = n, it_end_m = n, it_bar_m = True\<rparr>,
             advances tty (unit_advances clk 0 (n - 1)) s)"
  unfolding range_for_def range_begin_def by (rule iterate_from) simp

lemma bar_advance_counter:
  assumes "tracker_m b = Some tr"
  shows "\<exists>b' out' tr'. bar_advance tty n t1 t2 sp (b, out) = (b', out')
           \<and> tracker_m b' = Some tr' \<and> current_m tr' = current_m tr + n
           \<and> history_index_m tr' = history_index_m tr + 1 \<and> total_m tr' = total_m tr"
proof -
  obtain b' out' where r: "try_render tty t2 sp (b\<lparr>tracker_m := Some (advance n t1 tr)\<rparr>, out) = (b', out')"
    by (cases "try_render tty t2 sp (b\<lparr>tracker_m := Some (advance n t1 tr)\<rparr>, out)")
  from try_render_frame [OF r] have "tracker_m b' = Some (advance n t1 tr)" by simp
  then show ?thesis
    using assms r by (simp add: bar_advance_def advance_fields)
qed

lemma advances_counter:
  "tracker_m b = Some tr \<Longrightarrow>
   \<exists>b' out' tr'. advances tty (unit_advances clk i j) (b, out) = (b', out')
           \<and> tracker_m b' = Some tr' \<and> current_m tr' = current_m tr + of_nat (j - i)
           \<and> history_index_m tr' = history_index_m tr + of_nat (j - i)
           \<and> total_m tr' = total_m tr"
proof (induction "j - i" arbitrary: i b out tr)
  case 0
  then show ?case by (simp add: unit_advances_empty)
next
  case (Suc k)
  then have lt: "i < j" and k: "k = j - Suc i" by simp_all
  obtain t1 t2 sp where c: "clk i = (t1, t2, sp)" by (cases "clk i")
  from bar_advance_counter [OF Suc.prems, of tty 1 t1 t2 sp out] obtain b1 out1 tr1 where
    s1: "bar_advance tty 1 t1 t2 sp (b, out) = (b1, out1)" "tracker_m b1 = Some tr1"
      "current_m tr1 = current_m tr + 1" "history_index_m tr1 = history_index_m tr + 1"
      "total_m tr1 = total_m tr"
    by blast
  from Suc.hyps(1) [OF k s1(2), of out1] obtain b' out' tr' where
    s2: "advances tty (unit_advances clk (Suc i) j) (b1, out1) = (b', out')"
      "tracker_m b' = Some tr'" "current_m tr' = current_m tr1 + of_nat (j - Suc i)"
      "history_index_m tr' = history_index_m tr1 + of_nat (j - Suc i)"
      "total_m tr' = total_m tr1"
    by blast
  have "j - i = Suc (j - Suc i)" using lt by simp
  then show ?case
    using s1 s2 by (simp add: unit_advances_step [OF lt] c)
qed

lemma iter_incr_eq:
  "iter_incr tty t1 t2 sp (it, s)
     = (it\<lparr>it_current_m := it_current_m it + 1\<rparr>,
        if it_bar_m it \<and> it_current_m it + 1 \<noteq> it_end_m it
        then bar_advance tty 1 t1 t2 sp s else s)"
  by (simp add: iter_incr_def Let_def)

text \<open>
  Claim C9. The increment of the iterator advances the position and then calls
  \<^verbatim>\<open>advance()\<close> on the bar only when the new position is not the end. A complete
  iteration over a container of \<open>n \<ge> 1\<close> elements terminates at the end position and
  its effect on the bar is that of exactly \<open>n - 1\<close> calls of \<^verbatim>\<open>advance()\<close>, one per
  position but the last: the counter and the write cursor grow by \<open>n - 1\<close>. On the bar
  the range constructs, whose total is \<open>n\<close>, the counter ends at \<open>n - 1\<close>.
\<close>

theorem C9_range_undercounts:
  assumes "1 \<le> n" and "tracker_m b = Some tr"
  shows "iter_incr tty t1 t2 sp (it, s)
           = (it\<lparr>it_current_m := it_current_m it + 1\<rparr>,
              if it_bar_m it \<and> it_current_m it + 1 \<noteq> it_end_m it
              then bar_advance tty 1 t1 t2 sp s else s)
     \<and> range_for tty clk n (b, out)
         = Some (\<lparr>it_current_m = n, it_end_m = n, it_bar_m = True\<rparr>,
                 advances tty (unit_advances clk 0 (n - 1)) (b, out))
     \<and> length (unit_advances clk 0 (n - 1)) = n - 1
     \<and> (\<exists>it' b' out' tr'. range_for tty clk n (b, out) = Some (it', b', out')
           \<and> tracker_m b' = Some tr'
           \<and> current_m tr' = current_m tr + of_nat (n - 1)
           \<and> history_index_m tr' = history_index_m tr + of_nat (n - 1))
     \<and> (\<exists>it' b' out' tr'.
           range_for tty clk n (progress_bar_init tty (of_nat n) None start [])
             = Some (it', b', out')
           \<and> tracker_m b' = Some tr'
           \<and> current_m tr' = of_nat (n - 1) \<and> total_m tr' = of_nat n)"
proof -
  have len: "length (unit_advances clk 0 (n - 1)) = n - 1"
    by (simp add: unit_advances_def)
  from advances_counter [OF assms(2), of tty clk 0 "n - 1" out] obtain b' out' tr' where
    a: "advances tty (unit_advances clk 0 (n - 1)) (b, out) = (b', out')"
      "tracker_m b' = Some tr'" "current_m tr' = current_m tr + of_nat (n - 1)"
      "history_index_m tr' = history_index_m tr + of_nat (n - 1)"
    by auto
  have cnt: "\<exists>it' b' out' tr'. range_for tty clk n (b, out) = Some (it', b', out')
           \<and> tracker_m b' = Some tr'
           \<and> current_m tr' = current_m tr + of_nat (n - 1)
           \<and> history_index_m tr' = history_index_m tr + of_nat (n - 1)"
    unfolding range_for_result a(1) using a(2-4) by blast
  obtain b0 out0 where i: "progress_bar_init tty (of_nat n) None start [] = (b0, out0)"
    by (cases "progress_bar_init tty (of_nat n) None start []")
  then have t0: "tracker_m b0 = Some (progress_tracker_init (of_nat n) start)"
    by (auto simp: progress_bar_init_def Let_def split: if_splits)
  from advances_counter [OF t0, of tty clk 0 "n - 1" out0] obtain b1 out1 tr1 where
    f: "advances tty (unit_advances clk 0 (n - 1)) (b0, out0) = (b1, out1)"
      "tracker_m b1 = Some tr1"
      "current_m tr1 = current_m (progress_tracker_init (of_nat n) start) + of_nat (n - 1)"
      "total_m tr1 = total_m (progress_tracker_init (of_nat n) start)"
    by auto
  have fresh: "\<exists>it' b' out' tr'.
           range_for tty clk n (progress_bar_init tty (of_nat n) None start [])
             = Some (it', b', out')
           \<and> tracker_m b' = Some tr'
           \<and> current_m tr' = of_nat (n - 1) \<and> total_m tr' = of_nat n"
    unfolding i range_for_result f(1) using f(2-4)
    by (simp add: progress_tracker_init_def)
  show ?thesis
    using iter_incr_eq range_for_result len cnt fresh by blast
qed

theorem C9_range_undercounts_witness:
  "map_option (\<lambda>r. map_option current_m (tracker_m (fst (snd r))))
     (range_for False (\<lambda>i. (0, 0, False)) 3 (progress_bar_init False 3 None 0 []))
   = Some (Some 2)
   \<and> map_option (\<lambda>r. map_option total_m (tracker_m (fst (snd r))))
     (range_for False (\<lambda>i. (0, 0, False)) 3 (progress_bar_init False 3 None 0 []))
   = Some (Some 3)
   \<and> map_option (\<lambda>r. it_current_m (fst r))
     (range_for False (\<lambda>i. (0, 0, False)) 3 (progress_bar_init False 3 None 0 []))
   = Some 3"
proof -
  let ?b = "\<lparr>tracker_m = Some (progress_tracker_init 3 0), display_m = Some Bar_display,
             finished_m = False, last_render_time_m = 0\<rparr>"
  have p: "progress_bar_init False 3 None 0 [] = (?b, [])"
    by (simp add: progress_bar_init_def Let_def)
  have t: "tracker_m ?b = Some (progress_tracker_init 3 0)"
    by simp
  have n: "(1::nat) \<le> 3" by simp
  note th = C9_range_undercounts [OF n t, where tty = False and clk = "\<lambda>i. (0, 0, False)"
      and out = "[]" and start = 0]
  note e = th [THEN conjunct2, THEN conjunct1]
  note f = th [THEN conjunct2, THEN conjunct2, THEN conjunct2, THEN conjunct2]
  have three: "(of_nat 3 :: size_t) = 3" "(of_nat (3 - 1) :: size_t) = 2"
    by simp_all
  from f obtain it' b' out' tr' where
    r: "range_for False (\<lambda>i. (0, 0, False)) 3 (progress_bar_init False 3 None 0 [])
          = Some (it', b', out')"
      "tracker_m b' = Some tr'" "current_m tr' = 2" "total_m tr' = 3"
    unfolding three by (elim exE conjE)
  have "Some (it', b', out')
           = Some (\<lparr>it_current_m = 3, it_end_m = 3, it_bar_m = True\<rparr>,
                 advances False (unit_advances (\<lambda>i. (0, 0, False)) 0 (3 - 1)) (?b, []))"
    using e r(1) unfolding p by simp
  then have "it' = \<lparr>it_current_m = 3, it_end_m = 3, it_bar_m = True\<rparr>"
    by (simp only: option.inject prod.inject)
  then show ?thesis
    unfolding r(1) using r(2-4) by simp
qed

end
